theory Spec2Isabelle
  imports Main "HOL-Library.Word"
begin

section \<open>The bounded priority queue (queue.h, queue.c)\<close>

text \<open>
  C \<open>int\<close> values are modelled as \<open>int\<close>: the queue code compares and copies them, and
  the only arithmetic on them (\<open>count++\<close>, \<open>count--\<close>, index arithmetic) stays within
  \<open>0 .. capacity\<close> on every queue that satisfies \<open>queue_inv\<close> below, so signed overflow
  (undefined in C) never arises. The sequence counter is an \<open>unsigned long\<close> and is
  incremented without a bound, so it is a 64-bit word whose \<open>+\<close> wraps and whose \<open><\<close>
  is the unsigned comparison. A pointer that may be \<open>NULL\<close> is an \<open>option\<close>.
\<close>

record msg_t =
  msg_value :: int
  priority :: int
  producer_id :: int
  seq :: "64 word"

record queue_t =
  buf :: "msg_t list option"
  capacity :: int
  count :: int
  next_seq :: "64 word"

definition INT_MAX :: int where
  "INT_MAX = 2147483647"

definition zero_msg :: msg_t where
  "zero_msg = \<lparr>msg_value = 0, priority = 0, producer_id = 0, seq = 0\<rparr>"

text \<open>
  \<open>calloc\<close>: whether storage can be obtained is decided by the environment (the flag
  \<open>mem\<close>); the block it returns is zero-filled.
\<close>

definition calloc_msgs :: "bool \<Rightarrow> int \<Rightarrow> msg_t list option" where
  "calloc_msgs mem n = (if mem then Some (replicate (nat n) zero_msg) else None)"

definition queue_init :: "bool \<Rightarrow> queue_t option \<Rightarrow> int \<Rightarrow> int \<times> queue_t option" where
  "queue_init mem q cap =
     (case q of
        None \<Rightarrow> (- 1, None)
      | Some qq \<Rightarrow>
          if cap \<le> 0 then (- 1, q)
          else (case calloc_msgs mem cap of
                  None \<Rightarrow> (- 2, Some (qq\<lparr>buf := None\<rparr>))
                | Some xs \<Rightarrow>
                    (0, Some (qq\<lparr>buf := Some xs, capacity := cap, count := 0, next_seq := 1\<rparr>))))"

definition queue_destroy :: "queue_t option \<Rightarrow> queue_t option" where
  "queue_destroy q =
     (case q of
        None \<Rightarrow> None
      | Some qq \<Rightarrow> Some (qq\<lparr>buf := None, capacity := 0, count := 0, next_seq := 0\<rparr>))"

definition queue_is_full :: "queue_t option \<Rightarrow> bool" where
  "queue_is_full q = (case q of None \<Rightarrow> False | Some qq \<Rightarrow> count qq \<ge> capacity qq)"

definition queue_is_empty :: "queue_t option \<Rightarrow> bool" where
  "queue_is_empty q = (case q of None \<Rightarrow> True | Some qq \<Rightarrow> count qq = 0)"

definition queue_push :: "queue_t option \<Rightarrow> msg_t option \<Rightarrow> int \<times> queue_t option" where
  "queue_push q m =
     (case (q, m) of
        (Some qq, Some mm) \<Rightarrow>
          (case buf qq of
             None \<Rightarrow> (- 1, q)
           | Some xs \<Rightarrow>
               if queue_is_full q then (- 2, q)
               else
                 let tmp = mm\<lparr>seq := next_seq qq\<rparr>
                 in (0, Some (qq\<lparr>buf := Some (xs[nat (count qq) := tmp]),
                                 next_seq := next_seq qq + 1,
                                 count := count qq + 1\<rparr>)))
      | _ \<Rightarrow> (- 1, q))"

text \<open>
  The scan of \<open>best_index_to_pop\<close>: \<open>i\<close> runs from 1 up to \<open>count\<close>, \<open>best\<close> is the
  index chosen so far.
\<close>

function best_loop :: "msg_t list \<Rightarrow> int \<Rightarrow> nat \<Rightarrow> nat \<Rightarrow> nat" where
  "best_loop xs n i best =
     (if int i < n then
        (if priority (xs ! i) > priority (xs ! best) then best_loop xs n (Suc i) i
         else if priority (xs ! i) = priority (xs ! best) \<and> seq (xs ! i) < seq (xs ! best)
              then best_loop xs n (Suc i) i
         else best_loop xs n (Suc i) best)
      else best)"
  by pat_completeness auto
termination
  by (relation "measure (\<lambda>(xs, n, i, best). nat n - i)") auto

declare best_loop.simps [simp del]

text \<open>
  \<open>best_index_to_pop\<close> is static and only called by \<open>queue_pop\<close> after the checks for a
  null queue, null storage and an empty queue, so it takes the array itself.
\<close>

definition best_index_to_pop :: "msg_t list \<Rightarrow> int \<Rightarrow> nat" where
  "best_index_to_pop xs n = (if n = 1 then 0 else best_loop xs n 1 0)"

text \<open>
  \<open>memmove(&a[dst], &a[src], n * sizeof(msg_t))\<close> inside one array: every cell of the
  destination range receives the old content of the matching source cell, the other
  cells keep theirs.
\<close>

definition memmove_msgs :: "'a list \<Rightarrow> nat \<Rightarrow> nat \<Rightarrow> nat \<Rightarrow> 'a list" where
  "memmove_msgs xs dst src n =
     map (\<lambda>i. if dst \<le> i \<and> i < dst + n then xs ! (src + (i - dst)) else xs ! i)
       [0 ..< length xs]"

definition queue_pop ::
  "queue_t option \<Rightarrow> msg_t option \<Rightarrow> int \<times> queue_t option \<times> msg_t option" where
  "queue_pop q out =
     (case (q, out) of
        (Some qq, Some old) \<Rightarrow>
          (case buf qq of
             None \<Rightarrow> (- 1, q, out)
           | Some xs \<Rightarrow>
               if queue_is_empty q then (- 2, q, out)
               else
                 let idx = best_index_to_pop xs (count qq);
                     xs' = (if int idx < count qq - 1
                            then memmove_msgs xs idx (idx + 1) (nat (count qq - int idx - 1))
                            else xs)
                 in (0, Some (qq\<lparr>buf := Some xs', count := count qq - 1\<rparr>), Some (xs ! idx)))
      | _ \<Rightarrow> (- 1, q, out))"

section \<open>Synchronisation primitives (sync.h, sync.c)\<close>

text \<open>
  The shared state is passed in and returned, and what the operating system decides (a
  signal interrupting a wait, a deadline passing, a primitive failing, the reading of the
  clock) is an explicit input: a script of events, one per call of the POSIX primitive.
  A semaphore is its count; the mutex is a flag that is set while it is held. An
  acquisition that the state does not allow (a semaphore at zero, a mutex already held)
  has no result, \<open>None\<close>: a call on its own would wait for another thread, and among
  several threads the step is not enabled. \<open>None\<close> is also the result when the script
  runs out while the call still retries. \<open>sem_post\<close> and the unlock of a held mutex
  always succeed.
\<close>

record sync_t =
  mtx :: bool
  items :: nat
  slots :: nat

datatype errno = EINTR | ETIMEDOUT | EINVAL | EOTHER

text \<open>The result of a POSIX semaphore wait: 0, or -1 with \<open>errno\<close> set.\<close>

datatype sem_rc = Sem_acquired | Sem_failed errno

fun rc_of :: "sem_rc \<Rightarrow> int" where
  "rc_of Sem_acquired = 0"
| "rc_of (Sem_failed e) = - 1"

text \<open>What the environment lets a single wait do: go through, or fail with an error.\<close>

datatype sem_ev = Ev_acquire | Ev_fail errno

definition sem_wait :: "sem_ev \<Rightarrow> nat \<Rightarrow> (sem_rc \<times> nat) option" where
  "sem_wait ev v =
     (case ev of
        Ev_acquire \<Rightarrow> if 0 < v then Some (Sem_acquired, v - 1) else None
      | Ev_fail e \<Rightarrow> Some (Sem_failed e, v))"

definition sem_post :: "nat \<Rightarrow> int \<times> nat" where
  "sem_post v = (0, Suc v)"

record timespec =
  tv_sec :: int
  tv_nsec :: int

definition ts_normalized :: "timespec \<Rightarrow> bool" where
  "ts_normalized ts = (0 \<le> tv_nsec ts \<and> tv_nsec ts < 1000000000)"

definition ts_to_ns :: "timespec \<Rightarrow> int" where
  "ts_to_ns ts = tv_sec ts * 1000000000 + tv_nsec ts"

text \<open>
  \<open>sem_timedwait\<close> with an absolute deadline: a wait that cannot go through at once
  fails with \<open>EINVAL\<close> when the deadline's nanoseconds are out of range.
\<close>

definition sem_timedwait :: "sem_ev \<Rightarrow> timespec \<Rightarrow> nat \<Rightarrow> (sem_rc \<times> nat) option" where
  "sem_timedwait ev ts v =
     (if v = 0 \<and> \<not> ts_normalized ts then Some (Sem_failed EINVAL, v)
      else sem_wait ev v)"

text \<open>
  \<open>pthread_mutex_lock\<close>: \<open>e\<close> is the error number the environment makes the call
  return (0 for none). \<open>pthread_mutex_unlock\<close> releases a held mutex.
\<close>

definition pthread_mutex_lock :: "int \<Rightarrow> bool \<Rightarrow> (int \<times> bool) option" where
  "pthread_mutex_lock e m = (if e \<noteq> 0 then Some (e, m) else if m then None else Some (0, True))"

definition pthread_mutex_unlock :: "bool \<Rightarrow> int \<times> bool" where
  "pthread_mutex_unlock m = (if m then (0, False) else (1, m))"

text \<open>C division and remainder of \<open>int\<close> truncate towards zero.\<close>

definition c_div :: "int \<Rightarrow> int \<Rightarrow> int" where
  "c_div a b = sgn a * sgn b * (\<bar>a\<bar> div \<bar>b\<bar>)"

definition c_mod :: "int \<Rightarrow> int \<Rightarrow> int" where
  "c_mod a b = a - b * c_div a b"

text \<open>
  \<open>sync_init\<close>: the three flags say whether \<open>pthread_mutex_init\<close> and the two
  \<open>sem_init\<close> calls succeed.
\<close>

definition sync_init :: "bool \<times> bool \<times> bool \<Rightarrow> sync_t option \<Rightarrow> int \<Rightarrow> int \<times> sync_t option" where
  "sync_init env s cap =
     (case s of
        None \<Rightarrow> (- 1, None)
      | Some ss \<Rightarrow>
          if cap \<le> 0 then (- 1, s)
          else (case env of (mtx_ok, items_ok, slots_ok) \<Rightarrow>
            if \<not> mtx_ok then (- 2, s)
            else if \<not> items_ok then (- 3, Some (ss\<lparr>mtx := False\<rparr>))
            else if \<not> slots_ok then (- 4, Some (ss\<lparr>mtx := False, items := 0\<rparr>))
            else (0, Some (ss\<lparr>mtx := False, items := 0, slots := nat cap\<rparr>))))"

definition sync_lock :: "int \<Rightarrow> sync_t option \<Rightarrow> (int \<times> sync_t option) option" where
  "sync_lock e s =
     (case s of
        None \<Rightarrow> Some (- 1, None)
      | Some ss \<Rightarrow>
          (case pthread_mutex_lock e (mtx ss) of
             None \<Rightarrow> None
           | Some (rc, m) \<Rightarrow> Some (rc, Some (ss\<lparr>mtx := m\<rparr>))))"

definition sync_unlock :: "sync_t option \<Rightarrow> int \<times> sync_t option" where
  "sync_unlock s =
     (case s of
        None \<Rightarrow> (- 1, None)
      | Some ss \<Rightarrow>
          (case pthread_mutex_unlock (mtx ss) of (rc, m) \<Rightarrow> (rc, Some (ss\<lparr>mtx := m\<rparr>))))"

text \<open>
  \<open>sem_wait_retry\<close>: \<open>do { rc = sem_wait(sem); } while (rc == -1 && errno == EINTR)\<close>,
  one event per call of \<open>sem_wait\<close>.
\<close>

fun sem_wait_retry :: "sem_ev list \<Rightarrow> nat \<Rightarrow> (int \<times> nat) option" where
  "sem_wait_retry [] v = None"
| "sem_wait_retry (ev # evs) v =
     (case sem_wait ev v of
        None \<Rightarrow> None
      | Some (r, v') \<Rightarrow>
          if rc_of r = - 1 \<and> r = Sem_failed EINTR then sem_wait_retry evs v'
          else Some (rc_of r, v'))"

definition sync_wait_items :: "sem_ev list \<Rightarrow> sync_t option \<Rightarrow> (int \<times> sync_t option) option" where
  "sync_wait_items evs s =
     (case s of
        None \<Rightarrow> Some (- 1, None)
      | Some ss \<Rightarrow>
          (case sem_wait_retry evs (items ss) of
             None \<Rightarrow> None
           | Some (rc, v) \<Rightarrow> Some (rc, Some (ss\<lparr>items := v\<rparr>))))"

definition sync_post_items :: "sync_t option \<Rightarrow> int \<times> sync_t option" where
  "sync_post_items s =
     (case s of
        None \<Rightarrow> (- 1, None)
      | Some ss \<Rightarrow> (case sem_post (items ss) of (rc, v) \<Rightarrow> (rc, Some (ss\<lparr>items := v\<rparr>))))"

definition sync_wait_slots :: "sem_ev list \<Rightarrow> sync_t option \<Rightarrow> (int \<times> sync_t option) option" where
  "sync_wait_slots evs s =
     (case s of
        None \<Rightarrow> Some (- 1, None)
      | Some ss \<Rightarrow>
          (case sem_wait_retry evs (slots ss) of
             None \<Rightarrow> None
           | Some (rc, v) \<Rightarrow> Some (rc, Some (ss\<lparr>slots := v\<rparr>))))"

definition sync_post_slots :: "sync_t option \<Rightarrow> int \<times> sync_t option" where
  "sync_post_slots s =
     (case s of
        None \<Rightarrow> (- 1, None)
      | Some ss \<Rightarrow> (case sem_post (slots ss) of (rc, v) \<Rightarrow> (rc, Some (ss\<lparr>slots := v\<rparr>))))"

definition add_ms_to_timespec :: "timespec \<Rightarrow> int \<Rightarrow> timespec" where
  "add_ms_to_timespec ts ms =
     (let ts1 = ts\<lparr>tv_sec := tv_sec ts + c_div ms 1000\<rparr>;
          ts2 = ts1\<lparr>tv_nsec := tv_nsec ts1 + c_mod ms 1000 * 1000000\<rparr>
      in if tv_nsec ts2 \<ge> 1000000000
         then ts2\<lparr>tv_sec := tv_sec ts2 + 1, tv_nsec := tv_nsec ts2 - 1000000000\<rparr>
         else ts2)"

text \<open>
  The loop of \<open>sem_timedwait_retry\<close>, \<open>do { rc = sem_timedwait(sem, &ts); } while (rc ==
  -1 && errno == EINTR)\<close>: it returns the last result of \<open>sem_timedwait\<close>.
\<close>

fun sem_timedwait_loop :: "sem_ev list \<Rightarrow> timespec \<Rightarrow> nat \<Rightarrow> (sem_rc \<times> nat) option" where
  "sem_timedwait_loop [] ts v = None"
| "sem_timedwait_loop (ev # evs) ts v =
     (case sem_timedwait ev ts v of
        None \<Rightarrow> None
      | Some (r, v') \<Rightarrow>
          if rc_of r = - 1 \<and> r = Sem_failed EINTR then sem_timedwait_loop evs ts v'
          else Some (r, v'))"

text \<open>
  \<open>clock\<close> is what \<open>clock_gettime(CLOCK_REALTIME, &ts)\<close> yields: the time, or
  \<open>None\<close> when it fails.
\<close>

definition sem_timedwait_retry ::
  "timespec option \<Rightarrow> sem_ev list \<Rightarrow> int \<Rightarrow> nat \<Rightarrow> (int \<times> nat) option" where
  "sem_timedwait_retry clock evs timeout_ms v =
     (case clock of
        None \<Rightarrow> Some (- 2, v)
      | Some now \<Rightarrow>
          (case sem_timedwait_loop evs (add_ms_to_timespec now timeout_ms) v of
             None \<Rightarrow> None
           | Some (r, v') \<Rightarrow>
               if rc_of r = 0 then Some (0, v')
               else if r = Sem_failed ETIMEDOUT then Some (1, v')
               else Some (- 1, v')))"

definition sync_timedwait_items ::
  "timespec option \<Rightarrow> sem_ev list \<Rightarrow> sync_t option \<Rightarrow> int \<Rightarrow> (int \<times> sync_t option) option" where
  "sync_timedwait_items clock evs s timeout_ms =
     (case s of
        None \<Rightarrow> Some (- 1, None)
      | Some ss \<Rightarrow>
          (case sem_timedwait_retry clock evs timeout_ms (items ss) of
             None \<Rightarrow> None
           | Some (rc, v) \<Rightarrow> Some (rc, Some (ss\<lparr>items := v\<rparr>))))"

definition sync_timedwait_slots ::
  "timespec option \<Rightarrow> sem_ev list \<Rightarrow> sync_t option \<Rightarrow> int \<Rightarrow> (int \<times> sync_t option) option" where
  "sync_timedwait_slots clock evs s timeout_ms =
     (case s of
        None \<Rightarrow> Some (- 1, None)
      | Some ss \<Rightarrow>
          (case sem_timedwait_retry clock evs timeout_ms (slots ss) of
             None \<Rightarrow> None
           | Some (rc, v) \<Rightarrow> Some (rc, Some (ss\<lparr>slots := v\<rparr>))))"

section \<open>The bounded buffer (buffer.h, buffer.c)\<close>

record buffer_t =
  b_q :: queue_t
  b_s :: sync_t

text \<open>\<open>&b->q\<close> and \<open>&b->s\<close>, and storing back what a callee left behind the pointer.\<close>

definition q_ptr :: "buffer_t \<Rightarrow> queue_t option" where
  "q_ptr b = Some (b_q b)"

definition s_ptr :: "buffer_t \<Rightarrow> sync_t option" where
  "s_ptr b = Some (b_s b)"

definition set_q :: "buffer_t \<Rightarrow> queue_t option \<Rightarrow> buffer_t" where
  "set_q b q = (case q of None \<Rightarrow> b | Some qq \<Rightarrow> b\<lparr>b_q := qq\<rparr>)"

definition set_s :: "buffer_t \<Rightarrow> sync_t option \<Rightarrow> buffer_t" where
  "set_s b s = (case s of None \<Rightarrow> b | Some ss \<Rightarrow> b\<lparr>b_s := ss\<rparr>)"

definition buffer_init ::
  "bool \<Rightarrow> bool \<times> bool \<times> bool \<Rightarrow> buffer_t option \<Rightarrow> int \<Rightarrow> int \<times> buffer_t option" where
  "buffer_init mem senv b cap =
     (case b of
        None \<Rightarrow> (- 1, None)
      | Some bb \<Rightarrow>
          (case queue_init mem (q_ptr bb) cap of (qrc, q1) \<Rightarrow>
             let b1 = set_q bb q1
             in if qrc \<noteq> 0 then (- 2, Some b1)
                else (case sync_init senv (s_ptr b1) cap of (src, s1) \<Rightarrow>
                        let b2 = set_s b1 s1
                        in if src \<noteq> 0 then (- 3, Some (set_q b2 (queue_destroy (q_ptr b2))))
                           else (0, Some b2))))"

text \<open>
  The environment of a blocking \<open>buffer_put\<close> or \<open>buffer_get\<close>: the events of its
  semaphore wait and the error number of its \<open>pthread_mutex_lock\<close>.
\<close>

record blk_env =
  wait_evs :: "sem_ev list"
  lock_err :: int

definition buffer_put ::
  "blk_env \<Rightarrow> buffer_t option \<Rightarrow> msg_t option \<Rightarrow> (int \<times> buffer_t option) option" where
  "buffer_put env b m =
     (case (b, m) of
        (Some bb, Some mm) \<Rightarrow>
          (case sync_wait_slots (wait_evs env) (s_ptr bb) of
             None \<Rightarrow> None
           | Some (w, s1) \<Rightarrow>
               let b1 = set_s bb s1
               in if w \<noteq> 0 then Some (- 2, Some b1)
                  else (case sync_lock (lock_err env) (s_ptr b1) of
                          None \<Rightarrow> None
                        | Some (l, s2) \<Rightarrow>
                            let b2 = set_s b1 s2
                            in if l \<noteq> 0
                               then Some (- 3, Some (set_s b2 (snd (sync_post_slots (s_ptr b2)))))
                               else (case queue_push (q_ptr b2) m of (rc, q3) \<Rightarrow>
                                 let b3 = set_q b2 q3;
                                     b4 = set_s b3 (snd (sync_unlock (s_ptr b3)))
                                 in if rc \<noteq> 0
                                    then Some (- 4, Some (set_s b4 (snd (sync_post_slots (s_ptr b4)))))
                                    else Some (0, Some (set_s b4 (snd (sync_post_items (s_ptr b4))))))))
      | _ \<Rightarrow> Some (- 1, b))"

definition buffer_get ::
  "blk_env \<Rightarrow> buffer_t option \<Rightarrow> msg_t option \<Rightarrow> (int \<times> buffer_t option \<times> msg_t option) option" where
  "buffer_get env b out =
     (case (b, out) of
        (Some bb, Some old) \<Rightarrow>
          (case sync_wait_items (wait_evs env) (s_ptr bb) of
             None \<Rightarrow> None
           | Some (w, s1) \<Rightarrow>
               let b1 = set_s bb s1
               in if w \<noteq> 0 then Some (- 2, Some b1, out)
                  else (case sync_lock (lock_err env) (s_ptr b1) of
                          None \<Rightarrow> None
                        | Some (l, s2) \<Rightarrow>
                            let b2 = set_s b1 s2
                            in if l \<noteq> 0
                               then Some (- 3, Some (set_s b2 (snd (sync_post_items (s_ptr b2)))), out)
                               else (case queue_pop (q_ptr b2) out of (rc, q3, out') \<Rightarrow>
                                 let b3 = set_q b2 q3;
                                     b4 = set_s b3 (snd (sync_unlock (s_ptr b3)))
                                 in if rc \<noteq> 0
                                    then Some (- 4, Some (set_s b4 (snd (sync_post_items (s_ptr b4)))), out')
                                    else Some (0, Some (set_s b4 (snd (sync_post_slots (s_ptr b4)))), out'))))
      | _ \<Rightarrow> Some (- 1, b, out))"

text \<open>
  One turn of the loop of an interruptible operation: the values \<open>atomic_load(stop_flag)\<close>
  yields at the loop test, after the token was taken and after the lock was taken, the
  clock and the events of the timed wait, and the error number of the lock. A turn uses
  the fields it reaches.
\<close>

record round =
  stop_at_entry :: int
  clock_now :: "timespec option"
  timed_evs :: "sem_ev list"
  stop_after_token :: int
  lock_err_r :: int
  stop_after_lock :: int

fun put_loop :: "round list \<Rightarrow> int \<Rightarrow> buffer_t \<Rightarrow> msg_t \<Rightarrow> (int \<times> buffer_t) option" where
  "put_loop [] poll_ms b m = None"
| "put_loop (r # rs) poll_ms b m =
     (if stop_at_entry r \<noteq> 0 then Some (1, b)
      else
        (case sync_timedwait_slots (clock_now r) (timed_evs r) (s_ptr b) poll_ms of
           None \<Rightarrow> None
         | Some (w, s1) \<Rightarrow>
             let b1 = set_s b s1
             in if w = 1 then put_loop rs poll_ms b1 m
                else if w \<noteq> 0 then Some (- 2, b1)
                else if stop_after_token r \<noteq> 0
                then Some (1, set_s b1 (snd (sync_post_slots (s_ptr b1))))
                else (case sync_lock (lock_err_r r) (s_ptr b1) of
                        None \<Rightarrow> None
                      | Some (l, s2) \<Rightarrow>
                          let b2 = set_s b1 s2
                          in if l \<noteq> 0
                             then Some (- 3, set_s b2 (snd (sync_post_slots (s_ptr b2))))
                             else if stop_after_lock r \<noteq> 0
                             then
                               let b3 = set_s b2 (snd (sync_unlock (s_ptr b2)))
                               in Some (1, set_s b3 (snd (sync_post_slots (s_ptr b3))))
                             else (case queue_push (q_ptr b2) (Some m) of (rc, q3) \<Rightarrow>
                               let b3 = set_q b2 q3;
                                   b4 = set_s b3 (snd (sync_unlock (s_ptr b3)))
                               in if rc \<noteq> 0
                                  then Some (- 4, set_s b4 (snd (sync_post_slots (s_ptr b4))))
                                  else Some (0, set_s b4 (snd (sync_post_items (s_ptr b4))))))))"

fun get_loop ::
  "round list \<Rightarrow> int \<Rightarrow> buffer_t \<Rightarrow> msg_t \<Rightarrow> (int \<times> buffer_t \<times> msg_t) option" where
  "get_loop [] poll_ms b old = None"
| "get_loop (r # rs) poll_ms b old =
     (if stop_at_entry r \<noteq> 0 then Some (1, b, old)
      else
        (case sync_timedwait_items (clock_now r) (timed_evs r) (s_ptr b) poll_ms of
           None \<Rightarrow> None
         | Some (w, s1) \<Rightarrow>
             let b1 = set_s b s1
             in if w = 1 then get_loop rs poll_ms b1 old
                else if w \<noteq> 0 then Some (- 2, b1, old)
                else if stop_after_token r \<noteq> 0
                then Some (1, set_s b1 (snd (sync_post_items (s_ptr b1))), old)
                else (case sync_lock (lock_err_r r) (s_ptr b1) of
                        None \<Rightarrow> None
                      | Some (l, s2) \<Rightarrow>
                          let b2 = set_s b1 s2
                          in if l \<noteq> 0
                             then Some (- 3, set_s b2 (snd (sync_post_items (s_ptr b2))), old)
                             else if stop_after_lock r \<noteq> 0
                             then
                               let b3 = set_s b2 (snd (sync_unlock (s_ptr b2)))
                               in Some (1, set_s b3 (snd (sync_post_items (s_ptr b3))), old)
                             else (case queue_pop (q_ptr b2) (Some old) of (rc, q3, out') \<Rightarrow>
                               let b3 = set_q b2 q3;
                                   b4 = set_s b3 (snd (sync_unlock (s_ptr b3)));
                                   new = (case out' of None \<Rightarrow> old | Some x \<Rightarrow> x)
                               in if rc \<noteq> 0
                                  then Some (- 4, set_s b4 (snd (sync_post_items (s_ptr b4))), new)
                                  else Some (0, set_s b4 (snd (sync_post_slots (s_ptr b4))), new)))))"

text \<open>
  The interruptible operations. \<open>stop_flag\<close> is \<open>None\<close> for a null pointer, and
  otherwise the turns of the loop with what the flag read in each.
\<close>

definition buffer_put_interruptible ::
  "buffer_t option \<Rightarrow> msg_t option \<Rightarrow> round list option \<Rightarrow> int \<Rightarrow>
   (int \<times> buffer_t option) option" where
  "buffer_put_interruptible b m stop_flag poll_ms =
     (case (b, m, stop_flag) of
        (Some bb, Some mm, Some rs) \<Rightarrow>
          (case put_loop rs poll_ms bb mm of
             None \<Rightarrow> None
           | Some (rc, b') \<Rightarrow> Some (rc, Some b'))
      | _ \<Rightarrow> Some (- 1, b))"

definition buffer_get_interruptible ::
  "buffer_t option \<Rightarrow> msg_t option \<Rightarrow> round list option \<Rightarrow> int \<Rightarrow>
   (int \<times> buffer_t option \<times> msg_t option) option" where
  "buffer_get_interruptible b out stop_flag poll_ms =
     (case (b, out, stop_flag) of
        (Some bb, Some old, Some rs) \<Rightarrow>
          (case get_loop rs poll_ms bb old of
             None \<Rightarrow> None
           | Some (rc, b', out') \<Rightarrow> Some (rc, Some b', Some out'))
      | _ \<Rightarrow> Some (- 1, b, out))"

section \<open>Several threads on one buffer\<close>

text \<open>
  The same calls, run by several threads. A thread is at a point of its call (\<open>Idle\<close>
  outside of one, \<open>Ret rc\<close> after it has returned); one step is one call of a primitive
  of \<open>sync.c\<close> or \<open>queue.c\<close> or one \<open>atomic_load\<close> of the stop flag, in the order of
  \<open>buffer.c\<close>, and the steps of the threads interleave in any way. A step whose wait
  cannot go through in the present state (a semaphore at zero, the mutex held) is not
  enabled. A blocking call starts at its wait; an interruptible call, which carries its
  \<open>poll_ms\<close>, at the loop test.

  The points of a put, each named for what the thread does next: \<open>Put_test\<close> reads the
  flag in the loop condition, \<open>Put_wait\<close> waits for a slot (\<open>sync_wait_slots\<close> or
  \<open>sync_timedwait_slots\<close>), \<open>Put_got\<close> reads the flag after the token was taken,
  \<open>Put_lock\<close> locks, \<open>Put_locked\<close> reads the flag under the lock, \<open>Put_stop\<close>
  unlocks after the flag was seen set there, \<open>Put_push\<close> calls \<open>queue_push\<close>,
  \<open>Put_unlock rc\<close> unlocks after the push returned \<open>rc\<close>, \<open>Put_undo r\<close> posts the
  slot back and returns \<open>r\<close>, \<open>Put_post\<close> posts the item and returns 0. The points of
  a get mirror them; the message they carry is the content of \<open>*out\<close>.
\<close>

datatype kind = Blocking | Interruptible int

datatype pc =
    Idle
  | Put_test int msg_t
  | Put_wait kind msg_t
  | Put_got int msg_t
  | Put_lock kind msg_t
  | Put_locked msg_t
  | Put_stop
  | Put_push msg_t
  | Put_unlock int
  | Put_undo int
  | Put_post
  | Get_test int msg_t
  | Get_wait kind msg_t
  | Get_got int msg_t
  | Get_lock kind msg_t
  | Get_locked msg_t
  | Get_stop
  | Get_pop msg_t
  | Get_unlock int
  | Get_undo int
  | Get_post
  | Ret int

record os_env =
  os_evs :: "sem_ev list"
  os_clock :: "timespec option"
  os_lock_err :: int

fun thread_step :: "os_env \<Rightarrow> int \<Rightarrow> pc \<Rightarrow> buffer_t \<Rightarrow> (pc \<times> buffer_t) option" where
  "thread_step e f (Put_test p m) b = Some (if f = 0 then Put_wait (Interruptible p) m else Ret 1, b)"
| "thread_step e f (Put_wait Blocking m) b =
     (case sync_wait_slots (os_evs e) (s_ptr b) of
        None \<Rightarrow> None
      | Some (w, s1) \<Rightarrow> Some (if w \<noteq> 0 then Ret (- 2) else Put_lock Blocking m, set_s b s1))"
| "thread_step e f (Put_wait (Interruptible p) m) b =
     (case sync_timedwait_slots (os_clock e) (os_evs e) (s_ptr b) p of
        None \<Rightarrow> None
      | Some (w, s1) \<Rightarrow>
          Some (if w = 1 then Put_test p m else if w \<noteq> 0 then Ret (- 2) else Put_got p m,
                set_s b s1))"
| "thread_step e f (Put_got p m) b =
     Some (if f \<noteq> 0 then Put_undo 1 else Put_lock (Interruptible p) m, b)"
| "thread_step e f (Put_lock k m) b =
     (case sync_lock (os_lock_err e) (s_ptr b) of
        None \<Rightarrow> None
      | Some (l, s2) \<Rightarrow>
          Some (if l \<noteq> 0 then Put_undo (- 3)
                else (case k of Blocking \<Rightarrow> Put_push m | Interruptible p \<Rightarrow> Put_locked m),
                set_s b s2))"
| "thread_step e f (Put_locked m) b = Some (if f \<noteq> 0 then Put_stop else Put_push m, b)"
| "thread_step e f Put_stop b = Some (Put_undo 1, set_s b (snd (sync_unlock (s_ptr b))))"
| "thread_step e f (Put_push m) b =
     (case queue_push (q_ptr b) (Some m) of (rc, q3) \<Rightarrow> Some (Put_unlock rc, set_q b q3))"
| "thread_step e f (Put_unlock rc) b =
     Some (if rc \<noteq> 0 then Put_undo (- 4) else Put_post, set_s b (snd (sync_unlock (s_ptr b))))"
| "thread_step e f (Put_undo r) b = Some (Ret r, set_s b (snd (sync_post_slots (s_ptr b))))"
| "thread_step e f Put_post b = Some (Ret 0, set_s b (snd (sync_post_items (s_ptr b))))"
| "thread_step e f (Get_test p old) b =
     Some (if f = 0 then Get_wait (Interruptible p) old else Ret 1, b)"
| "thread_step e f (Get_wait Blocking old) b =
     (case sync_wait_items (os_evs e) (s_ptr b) of
        None \<Rightarrow> None
      | Some (w, s1) \<Rightarrow> Some (if w \<noteq> 0 then Ret (- 2) else Get_lock Blocking old, set_s b s1))"
| "thread_step e f (Get_wait (Interruptible p) old) b =
     (case sync_timedwait_items (os_clock e) (os_evs e) (s_ptr b) p of
        None \<Rightarrow> None
      | Some (w, s1) \<Rightarrow>
          Some (if w = 1 then Get_test p old else if w \<noteq> 0 then Ret (- 2) else Get_got p old,
                set_s b s1))"
| "thread_step e f (Get_got p old) b =
     Some (if f \<noteq> 0 then Get_undo 1 else Get_lock (Interruptible p) old, b)"
| "thread_step e f (Get_lock k old) b =
     (case sync_lock (os_lock_err e) (s_ptr b) of
        None \<Rightarrow> None
      | Some (l, s2) \<Rightarrow>
          Some (if l \<noteq> 0 then Get_undo (- 3)
                else (case k of Blocking \<Rightarrow> Get_pop old | Interruptible p \<Rightarrow> Get_locked old),
                set_s b s2))"
| "thread_step e f (Get_locked old) b = Some (if f \<noteq> 0 then Get_stop else Get_pop old, b)"
| "thread_step e f Get_stop b = Some (Get_undo 1, set_s b (snd (sync_unlock (s_ptr b))))"
| "thread_step e f (Get_pop old) b =
     (case queue_pop (q_ptr b) (Some old) of (rc, q3, out') \<Rightarrow> Some (Get_unlock rc, set_q b q3))"
| "thread_step e f (Get_unlock rc) b =
     Some (if rc \<noteq> 0 then Get_undo (- 4) else Get_post, set_s b (snd (sync_unlock (s_ptr b))))"
| "thread_step e f (Get_undo r) b = Some (Ret r, set_s b (snd (sync_post_items (s_ptr b))))"
| "thread_step e f Get_post b = Some (Ret 0, set_s b (snd (sync_post_slots (s_ptr b))))"
| "thread_step e f Idle b = None"
| "thread_step e f (Ret r) b = None"

record world =
  w_buf :: buffer_t
  w_stop :: int
  w_thr :: "pc list"

datatype call = Call_put kind msg_t | Call_get kind msg_t

fun entry :: "call \<Rightarrow> pc" where
  "entry (Call_put Blocking m) = Put_wait Blocking m"
| "entry (Call_put (Interruptible p) m) = Put_test p m"
| "entry (Call_get Blocking old) = Get_wait Blocking old"
| "entry (Call_get (Interruptible p) old) = Get_test p old"

fun outside_call :: "pc \<Rightarrow> bool" where
  "outside_call Idle = True"
| "outside_call (Ret r) = True"
| "outside_call _ = False"

text \<open>
  What can happen next: thread \<open>i\<close> starts a call, thread \<open>i\<close> takes its next step in
  the environment \<open>e\<close>, or the coordinator sets the stop flag.
\<close>

datatype act = Call nat call | Step nat os_env | Set_stop

fun world_step :: "act \<Rightarrow> world \<Rightarrow> world option" where
  "world_step (Call i c) w =
     (if i < length (w_thr w) \<and> outside_call (w_thr w ! i)
      then Some (w\<lparr>w_thr := (w_thr w)[i := entry c]\<rparr>) else None)"
| "world_step (Step i e) w =
     (if i < length (w_thr w)
      then (case thread_step e (w_stop w) (w_thr w ! i) (w_buf w) of
              None \<Rightarrow> None
            | Some (pc', b') \<Rightarrow> Some (w\<lparr>w_buf := b', w_thr := (w_thr w)[i := pc']\<rparr>))
      else None)"
| "world_step Set_stop w = Some (w\<lparr>w_stop := 1\<rparr>)"

fun exec :: "act list \<Rightarrow> world \<Rightarrow> world option" where
  "exec [] w = Some w"
| "exec (a # as) w = (case world_step a w of None \<Rightarrow> None | Some w' \<Rightarrow> exec as w')"

definition w_init :: "buffer_t \<Rightarrow> nat \<Rightarrow> world" where
  "w_init b n = \<lparr>w_buf = b, w_stop = 0, w_thr = replicate n Idle\<rparr>"

text \<open>
  The tokens a thread has in flight: a slot taken and not yet spent or returned, a message
  pushed and not yet announced, an item taken and not yet removed or returned, a message
  removed whose slot is not yet announced. \<open>in_lock\<close> marks the points at which the thread
  holds the mutex, \<open>sound\<close> the points not on the -4 branch.
\<close>

fun slot_held :: "pc \<Rightarrow> int" where
  "slot_held (Put_got p m) = 1"
| "slot_held (Put_lock k m) = 1"
| "slot_held (Put_locked m) = 1"
| "slot_held Put_stop = 1"
| "slot_held (Put_push m) = 1"
| "slot_held (Put_unlock rc) = (if rc \<noteq> 0 then 1 else 0)"
| "slot_held (Put_undo r) = 1"
| "slot_held _ = 0"

fun pushed_unposted :: "pc \<Rightarrow> int" where
  "pushed_unposted (Put_unlock rc) = (if rc = 0 then 1 else 0)"
| "pushed_unposted Put_post = 1"
| "pushed_unposted _ = 0"

fun item_held :: "pc \<Rightarrow> int" where
  "item_held (Get_got p m) = 1"
| "item_held (Get_lock k m) = 1"
| "item_held (Get_locked m) = 1"
| "item_held Get_stop = 1"
| "item_held (Get_pop m) = 1"
| "item_held (Get_unlock rc) = (if rc \<noteq> 0 then 1 else 0)"
| "item_held (Get_undo r) = 1"
| "item_held _ = 0"

fun popped_unposted :: "pc \<Rightarrow> int" where
  "popped_unposted (Get_unlock rc) = (if rc = 0 then 1 else 0)"
| "popped_unposted Get_post = 1"
| "popped_unposted _ = 0"

fun in_lock :: "pc \<Rightarrow> int" where
  "in_lock (Put_locked m) = 1"
| "in_lock Put_stop = 1"
| "in_lock (Put_push m) = 1"
| "in_lock (Put_unlock rc) = 1"
| "in_lock (Get_locked m) = 1"
| "in_lock Get_stop = 1"
| "in_lock (Get_pop m) = 1"
| "in_lock (Get_unlock rc) = 1"
| "in_lock _ = 0"

fun sound :: "pc \<Rightarrow> bool" where
  "sound (Put_unlock rc) = (rc = 0)"
| "sound (Put_undo r) = (r \<noteq> - 4)"
| "sound (Get_unlock rc) = (rc = 0)"
| "sound (Get_undo r) = (r \<noteq> - 4)"
| "sound (Ret r) = (r \<noteq> - 4)"
| "sound _ = True"

section \<open>Vocabulary of the properties\<close>

text \<open>
  The data-model invariant of a live queue: storage of exactly \<open>capacity\<close> cells, a
  positive capacity, and a count within \<open>0 .. capacity\<close>. \<open>queue_init\<close> establishes
  it and \<open>queue_push\<close> and \<open>queue_pop\<close> keep it (\<open>queue_init_success\<close>,
  \<open>queue_push_step\<close>, \<open>queue_pop_step\<close> below); outside it the C code reads or
  writes beyond the array. The held messages are the first \<open>count\<close> cells.
\<close>

definition queue_inv :: "queue_t \<Rightarrow> bool" where
  "queue_inv q =
     (case buf q of
        None \<Rightarrow> False
      | Some xs \<Rightarrow>
          int (length xs) = capacity q \<and> 0 < capacity q \<and>
          0 \<le> count q \<and> count q \<le> capacity q)"

definition held :: "queue_t \<Rightarrow> msg_t list" where
  "held q = (case buf q of None \<Rightarrow> [] | Some xs \<Rightarrow> take (nat (count q)) xs)"

text \<open>
  The order the scan of \<open>best_index_to_pop\<close> follows: \<open>a\<close> is at least as good as
  \<open>b\<close> when its priority is greater, or equal with a sequence number not greater.
\<close>

definition beats :: "msg_t \<Rightarrow> msg_t \<Rightarrow> bool" where
  "beats a b = (priority a > priority b \<or> (priority a = priority b \<and> seq a \<le> seq b))"

text \<open>
  The largest \<open>unsigned long\<close> on the 64-bit Linux targets the Makefile names. The
  capacity handed to \<open>queue_init\<close> is a C \<open>int\<close> and so at most \<open>INT_MAX\<close>.
\<close>

definition ULONG_MAX :: nat where
  "ULONG_MAX = 2 ^ 64 - 1"

text \<open>
  A caller of the queue: it issues pushes and pops in any order and counts the ones that
  return 0. A call that fails leaves the queue as it was.
\<close>

datatype qop = Push msg_t | Pop

fun do_op :: "queue_t \<times> nat \<times> nat \<Rightarrow> qop \<Rightarrow> queue_t \<times> nat \<times> nat" where
  "do_op (q, pushed, popped) (Push m) =
     (case queue_push (Some q) (Some m) of
        (rc, Some q') \<Rightarrow> (q', if rc = 0 then Suc pushed else pushed, popped)
      | (rc, None) \<Rightarrow> (q, pushed, popped))"
| "do_op (q, pushed, popped) Pop =
     (case queue_pop (Some q) (Some zero_msg) of
        (rc, Some q', out) \<Rightarrow> (q', pushed, if rc = 0 then Suc popped else popped)
      | (rc, None, out) \<Rightarrow> (q, pushed, popped))"

definition run_ops :: "queue_t \<Rightarrow> qop list \<Rightarrow> queue_t \<times> nat \<times> nat" where
  "run_ops q ops = foldl do_op (q, 0, 0) ops"

text \<open>
  What holds after every step of such a caller on a queue of capacity \<open>C\<close>. The facts
  about sequence numbers hold while the counter has not wrapped around.
\<close>

definition run_inv :: "int \<Rightarrow> queue_t \<times> nat \<times> nat \<Rightarrow> bool" where
  "run_inv C st = (case st of (q, pushed, popped) \<Rightarrow>
     queue_inv q \<and> capacity q = C \<and> popped \<le> pushed \<and> count q = int pushed - int popped \<and>
     next_seq q = 1 + of_nat pushed \<and>
     (pushed \<le> ULONG_MAX \<longrightarrow>
        sorted_wrt (\<lambda>a b. seq a < seq b) (held q) \<and>
        (\<forall>m \<in> set (held q). unat (seq m) \<le> pushed)))"

text \<open>
  \<open>stamp s ms\<close> is \<open>ms\<close> in insertion order with the sequence numbers \<open>s\<close>,
  \<open>s + 1\<close>, ... that successive pushes assign. \<open>drain\<close> pops until a pop fails and
  collects what the pops return; the fuel bounds the number of pops, and running out of
  it is \<open>None\<close>.
\<close>

fun stamp :: "64 word \<Rightarrow> msg_t list \<Rightarrow> msg_t list" where
  "stamp s [] = []"
| "stamp s (m # ms) = m\<lparr>seq := s\<rparr> # stamp (s + 1) ms"

fun drain :: "nat \<Rightarrow> queue_t \<Rightarrow> msg_t list option" where
  "drain 0 q = None"
| "drain (Suc fuel) q =
     (case queue_pop (Some q) (Some zero_msg) of
        (rc, Some q', Some m) \<Rightarrow>
          if rc = 0 then map_option ((#) m) (drain fuel q') else Some []
      | _ \<Rightarrow> Some [])"

text \<open>
  The coupling of the two semaphores with the queue, and the buffer a completed put or
  get leaves: the new queue, one token moved from one semaphore to the other.
\<close>

definition buffer_inv :: "buffer_t \<Rightarrow> bool" where
  "buffer_inv b =
     (queue_inv (b_q b) \<and> int (items (b_s b)) = count (b_q b) \<and>
      int (slots (b_s b)) + int (items (b_s b)) = capacity (b_q b))"

definition put_done :: "buffer_t \<Rightarrow> queue_t \<Rightarrow> buffer_t" where
  "put_done b q' =
     b\<lparr>b_q := q', b_s := (b_s b)\<lparr>slots := slots (b_s b) - 1, items := Suc (items (b_s b))\<rparr>\<rparr>"

definition get_done :: "buffer_t \<Rightarrow> queue_t \<Rightarrow> buffer_t" where
  "get_done b q' =
     b\<lparr>b_q := q', b_s := (b_s b)\<lparr>items := items (b_s b) - 1, slots := Suc (slots (b_s b))\<rparr>\<rparr>"

text \<open>
  The balance of one thread against the shared state: what the count, the free room and
  the mutex are, less what the two semaphores show and what the thread has in flight. A
  step of the thread leaves its three balances as they were (\<open>thread_step_delta\<close>).
  \<open>tally f thr\<close> adds \<open>f\<close> up over the threads, and \<open>world_inv\<close> is what every
  interleaving keeps.
\<close>

definition bal_items :: "buffer_t \<Rightarrow> pc \<Rightarrow> int" where
  "bal_items b pc = count (b_q b) - int (items (b_s b)) - pushed_unposted pc - item_held pc"

definition bal_slots :: "buffer_t \<Rightarrow> pc \<Rightarrow> int" where
  "bal_slots b pc =
     capacity (b_q b) - count (b_q b) - int (slots (b_s b)) - slot_held pc - popped_unposted pc"

definition bal_lock :: "buffer_t \<Rightarrow> pc \<Rightarrow> int" where
  "bal_lock b pc = in_lock pc - (if mtx (b_s b) then 1 else 0)"

definition tally :: "(pc \<Rightarrow> int) \<Rightarrow> pc list \<Rightarrow> int" where
  "tally f thr = sum_list (map f thr)"

definition world_inv :: "world \<Rightarrow> bool" where
  "world_inv w =
     (let b = w_buf w; thr = w_thr w in
      queue_inv (b_q b) \<and>
      count (b_q b) = int (items (b_s b)) + tally pushed_unposted thr + tally item_held thr \<and>
      capacity (b_q b) - count (b_q b) =
        int (slots (b_s b)) + tally slot_held thr + tally popped_unposted thr \<and>
      tally in_lock thr = (if mtx (b_s b) then 1 else 0) \<and>
      list_all sound thr)"

subsection \<open>Concrete queues, buffers and environments\<close>

text \<open>
  \<open>q_blank\<close> and \<open>b_blank\<close> are objects before their \<open>init\<close>, \<open>q_fresh C\<close> and
  \<open>b_fresh C\<close> are what a successful \<open>init\<close> with capacity \<open>C\<close> leaves. \<open>q_three\<close>
  holds priorities 3, 3 and 7 in that insertion order. \<open>wrap_ops\<close> is a push followed
  by a pop, \<open>ULONG_MAX - 1\<close> times over, and then one more push.
  \<open>msg_early\<close> and \<open>msg_late\<close> are two messages of priority 5 that differ in their
  value. \<open>cycle_ops\<close> is the \<open>ULONG_MAX - 1\<close> rounds of push and pop alone,
  \<open>late_ops\<close> follows them with the pushes of \<open>msg_early\<close> and \<open>msg_late\<close>, and
  \<open>q_late\<close> is the queue \<open>late_ops\<close> leaves when run on a fresh queue of capacity 2.
  \<open>q_used\<close> is a queue of capacity 3 after one push and one pop, \<open>q_refilled\<close> the
  same queue after \<open>msg_early\<close>, \<open>msg_late\<close> and a message of priority 7 were pushed.
  \<open>s_half\<close> has one token on each semaphore. \<open>t_edge\<close> is a clock reading on a full
  second, from which a negative timeout gives a deadline with negative nanoseconds.
\<close>

definition q_blank :: queue_t where
  "q_blank = \<lparr>buf = None, capacity = 0, count = 0, next_seq = 0\<rparr>"

definition q_fresh :: "int \<Rightarrow> queue_t" where
  "q_fresh C = \<lparr>buf = Some (replicate (nat C) zero_msg), capacity = C, count = 0, next_seq = 1\<rparr>"

definition pri_msg :: "int \<Rightarrow> msg_t" where
  "pri_msg p = \<lparr>msg_value = 0, priority = p, producer_id = 0, seq = 0\<rparr>"

definition wrap_ops :: "qop list" where
  "wrap_ops = concat (replicate (ULONG_MAX - 1) [Push zero_msg, Pop]) @ [Push zero_msg]"

definition msg_early :: msg_t where
  "msg_early = (pri_msg 5)\<lparr>msg_value := 1\<rparr>"

definition msg_late :: msg_t where
  "msg_late = (pri_msg 5)\<lparr>msg_value := 2\<rparr>"

definition cycle_ops :: "qop list" where
  "cycle_ops = concat (replicate (ULONG_MAX - 1) [Push zero_msg, Pop])"

definition late_ops :: "qop list" where
  "late_ops = cycle_ops @ map Push [msg_early, msg_late]"

definition q_late :: queue_t where
  "q_late = fst (run_ops (q_fresh 2) late_ops)"

definition q_used :: queue_t where
  "q_used = \<lparr>buf = Some [(pri_msg 1)\<lparr>seq := 1\<rparr>, zero_msg, zero_msg], capacity = 3, count = 0,
              next_seq = 2\<rparr>"

definition q_refilled :: queue_t where
  "q_refilled = \<lparr>buf = Some [msg_early\<lparr>seq := 2\<rparr>, msg_late\<lparr>seq := 3\<rparr>, (pri_msg 7)\<lparr>seq := 4\<rparr>],
                  capacity = 3, count = 3, next_seq = 5\<rparr>"

definition q_three :: queue_t where
  "q_three = \<lparr>buf = Some [(pri_msg 3)\<lparr>seq := 1\<rparr>, (pri_msg 3)\<lparr>seq := 2\<rparr>, (pri_msg 7)\<lparr>seq := 3\<rparr>],
               capacity = 3, count = 3, next_seq = 4\<rparr>"

definition q_one :: queue_t where
  "q_one = \<lparr>buf = Some [(pri_msg 5)\<lparr>seq := 1\<rparr>], capacity = 1, count = 1, next_seq = 2\<rparr>"

definition s_fresh :: "int \<Rightarrow> sync_t" where
  "s_fresh C = \<lparr>mtx = False, items = 0, slots = nat C\<rparr>"

definition s_half :: sync_t where
  "s_half = \<lparr>mtx = False, items = 1, slots = 1\<rparr>"

definition t_edge :: timespec where
  "t_edge = \<lparr>tv_sec = 1700000000, tv_nsec = 0\<rparr>"

definition b_blank :: buffer_t where
  "b_blank = \<lparr>b_q = q_blank, b_s = \<lparr>mtx = False, items = 0, slots = 0\<rparr>\<rparr>"

definition b_fresh :: "int \<Rightarrow> buffer_t" where
  "b_fresh C = \<lparr>b_q = q_fresh C, b_s = s_fresh C\<rparr>"

definition b_one :: buffer_t where
  "b_one = \<lparr>b_q = \<lparr>buf = Some [(pri_msg 5)\<lparr>seq := 1\<rparr>, zero_msg], capacity = 2, count = 1,
                   next_seq = 2\<rparr>,
            b_s = \<lparr>mtx = False, items = 1, slots = 1\<rparr>\<rparr>"

definition b_drained :: buffer_t where
  "b_drained = b_one\<lparr>b_q := (b_q b_one)\<lparr>count := 0\<rparr>, b_s := s_fresh 2\<rparr>"

definition env_ok :: blk_env where
  "env_ok = \<lparr>wait_evs = [Ev_fail EINTR, Ev_acquire], lock_err = 0\<rparr>"

definition t0 :: timespec where
  "t0 = \<lparr>tv_sec = 1700000000, tv_nsec = 999000000\<rparr>"

definition r_timeout :: round where
  "r_timeout = \<lparr>stop_at_entry = 0, clock_now = Some t0, timed_evs = [Ev_fail ETIMEDOUT],
                stop_after_token = 0, lock_err_r = 0, stop_after_lock = 0\<rparr>"

definition r_entry :: round where
  "r_entry = \<lparr>stop_at_entry = 1, clock_now = Some t0, timed_evs = [],
              stop_after_token = 0, lock_err_r = 0, stop_after_lock = 0\<rparr>"

definition r_token :: round where
  "r_token = \<lparr>stop_at_entry = 0, clock_now = Some t0, timed_evs = [Ev_acquire],
              stop_after_token = 1, lock_err_r = 0, stop_after_lock = 0\<rparr>"

definition r_lock :: round where
  "r_lock = \<lparr>stop_at_entry = 0, clock_now = Some t0, timed_evs = [Ev_acquire],
             stop_after_token = 0, lock_err_r = 0, stop_after_lock = 1\<rparr>"

definition r_go :: round where
  "r_go = \<lparr>stop_at_entry = 0, clock_now = Some t0, timed_evs = [Ev_fail EINTR, Ev_acquire],
           stop_after_token = 0, lock_err_r = 0, stop_after_lock = 0\<rparr>"

text \<open>
  Two threads: thread 0 puts priority 5 with the blocking call, thread 1 gets with the
  interruptible call; the get polls once in vain, takes the item token once the put has
  posted it, and then reads the stop flag as set.
\<close>

definition e_ok :: os_env where
  "e_ok = \<lparr>os_evs = [Ev_fail EINTR, Ev_acquire], os_clock = Some t0, os_lock_err = 0\<rparr>"

definition e_late :: os_env where
  "e_late = \<lparr>os_evs = [Ev_fail ETIMEDOUT], os_clock = Some t0, os_lock_err = 0\<rparr>"

definition two_threads :: "act list" where
  "two_threads =
     [Call 0 (Call_put Blocking (pri_msg 5)),
      Call 1 (Call_get (Interruptible 150) zero_msg),
      Step 1 e_late, Step 1 e_late,
      Step 0 e_ok, Step 0 e_ok,
      Step 1 e_ok,
      Step 0 e_ok, Step 0 e_ok, Step 0 e_ok,
      Step 1 e_ok,
      Set_stop,
      Step 1 e_ok, Step 1 e_ok]"

section \<open>The queue: scan, removal and insertion\<close>

lemma length_memmove_msgs [simp]: "length (memmove_msgs xs dst src n) = length xs"
  by (simp add: memmove_msgs_def)

lemma nth_memmove_msgs:
  "i < length xs \<Longrightarrow>
   memmove_msgs xs dst src n ! i =
     (if dst \<le> i \<and> i < dst + n then xs ! (src + (i - dst)) else xs ! i)"
  by (simp add: memmove_msgs_def)

lemma beats_refl: "beats a a"
  by (simp add: beats_def)

lemma beats_trans: "beats a b \<Longrightarrow> beats b c \<Longrightarrow> beats a c"
  by (auto simp: beats_def)

lemma best_loop_spec:
  "best < i \<Longrightarrow> i \<le> nat n \<Longrightarrow>
   (\<forall>j<i. beats (xs ! best) (xs ! j)) \<Longrightarrow>
   (\<forall>j<best. \<not> beats (xs ! j) (xs ! best)) \<Longrightarrow>
   best_loop xs n i best < nat n \<and>
   (\<forall>j<nat n. beats (xs ! best_loop xs n i best) (xs ! j)) \<and>
   (\<forall>j<best_loop xs n i best. \<not> beats (xs ! j) (xs ! best_loop xs n i best))"
proof (induction xs n i best rule: best_loop.induct)
  case (1 xs n i best)
  show ?case
  proof (cases "int i < n")
    case False
    have eq: "best_loop xs n i best = best"
      using False by (subst best_loop.simps) simp
    from False "1.prems"(2) have "i = nat n" by simp
    with "1.prems" eq show ?thesis by simp
  next
    case True
    let ?new = "priority (xs ! i) > priority (xs ! best) \<or>
                (priority (xs ! i) = priority (xs ! best) \<and> seq (xs ! i) < seq (xs ! best))"
    show ?thesis
    proof (cases ?new)
      case new: True
      have strict: "beats (xs ! i) (xs ! best)" "\<not> beats (xs ! best) (xs ! i)"
        using new by (auto simp: beats_def)
      have a: "\<forall>j<Suc i. beats (xs ! i) (xs ! j)"
        using "1.prems"(3) strict(1) beats_trans beats_refl less_Suc_eq by metis
      have b: "\<forall>j<i. \<not> beats (xs ! j) (xs ! i)"
        using "1.prems"(3) strict(2) beats_trans by blast
      have eq: "best_loop xs n i best = best_loop xs n (Suc i) i"
        using True new by (subst best_loop.simps) auto
      have "best_loop xs n (Suc i) i < nat n \<and>
        (\<forall>j<nat n. beats (xs ! best_loop xs n (Suc i) i) (xs ! j)) \<and>
        (\<forall>j<best_loop xs n (Suc i) i. \<not> beats (xs ! j) (xs ! best_loop xs n (Suc i) i))"
      proof (cases "priority (xs ! i) > priority (xs ! best)")
        case True
        show ?thesis
          using "1.IH"(1) [OF \<open>int i < n\<close> True] True \<open>int i < n\<close> a b by simp
      next
        case False
        with new have c: "priority (xs ! i) = priority (xs ! best) \<and> seq (xs ! i) < seq (xs ! best)"
          by simp
        show ?thesis
          using "1.IH"(2) [OF \<open>int i < n\<close> False c] \<open>int i < n\<close> a b by simp
      qed
      with eq show ?thesis by simp
    next
      case old: False
      have keep: "beats (xs ! best) (xs ! i)"
        using old by (auto simp: beats_def)
      have a: "\<forall>j<Suc i. beats (xs ! best) (xs ! j)"
        using "1.prems"(3) keep less_Suc_eq by metis
      have eq: "best_loop xs n i best = best_loop xs n (Suc i) best"
        using True old by (subst best_loop.simps) auto
      have np: "\<not> priority (xs ! i) > priority (xs ! best)" 
        and nq: "\<not> (priority (xs ! i) = priority (xs ! best) \<and> seq (xs ! i) < seq (xs ! best))"
        using old by auto
      show ?thesis
        using "1.IH"(3) [OF \<open>int i < n\<close> np nq] "1.prems" \<open>int i < n\<close> a eq by simp
    qed
  qed
qed

lemma best_index_to_pop_spec:
  assumes "1 \<le> n"
  shows "best_index_to_pop xs n < nat n \<and>
         (\<forall>j<nat n. beats (xs ! best_index_to_pop xs n) (xs ! j)) \<and>
         (\<forall>j<best_index_to_pop xs n. \<not> beats (xs ! j) (xs ! best_index_to_pop xs n))"
proof (cases "n = 1")
  case True
  then show ?thesis by (simp add: best_index_to_pop_def beats_refl)
next
  case False
  with assms have "1 \<le> nat n" by simp
  moreover have "\<forall>j<1. beats (xs ! 0) (xs ! j)" by (simp add: beats_refl)
  ultimately show ?thesis
    using False best_loop_spec [of 0 1 n xs] by (simp add: best_index_to_pop_def)
qed

lemma take_memmove_down:
  assumes "r < n" "n \<le> length xs"
  shows "take (n - 1) (if r < n - 1 then memmove_msgs xs r (r + 1) (n - r - 1) else xs) =
         take r (take n xs) @ drop (Suc r) (take n xs)"
proof (rule nth_equalityI)
  show "length (take (n - 1) (if r < n - 1 then memmove_msgs xs r (r + 1) (n - r - 1) else xs)) =
        length (take r (take n xs) @ drop (Suc r) (take n xs))"
    using assms by auto
next
  fix i
  assume "i < length (take (n - 1) (if r < n - 1 then memmove_msgs xs r (r + 1) (n - r - 1) else xs))"
  then have i: "i < n - 1" by simp
  with assms have il: "i < length xs" by simp
  show "take (n - 1) (if r < n - 1 then memmove_msgs xs r (r + 1) (n - r - 1) else xs) ! i =
        (take r (take n xs) @ drop (Suc r) (take n xs)) ! i"
    using i il assms by (auto simp: nth_memmove_msgs nth_append min_def)
qed

lemma held_length: "queue_inv q \<Longrightarrow> length (held q) = nat (count q)"
  by (auto simp: queue_inv_def held_def split: option.splits)

lemma queue_pop_empty:
  "buf q \<noteq> None \<Longrightarrow> count q = 0 \<Longrightarrow> queue_pop (Some q) (Some old) = (- 2, Some q, Some old)"
  by (auto simp: queue_pop_def queue_is_empty_def split: option.splits)

lemma queue_pop_step:
  assumes inv: "queue_inv q" and ne: "count q \<noteq> 0"
  obtains r q' where
    "queue_pop (Some q) (Some old) = (0, Some q', Some (held q ! r))"
    "r < length (held q)"
    "held q' = take r (held q) @ drop (Suc r) (held q)"
    "queue_inv q'" "count q' = count q - 1" "capacity q' = capacity q"
    "next_seq q' = next_seq q"
    "\<forall>j<length (held q). beats (held q ! r) (held q ! j)"
    "\<forall>j<r. \<not> beats (held q ! j) (held q ! r)"
proof -
  from inv obtain xs where xs: "buf q = Some xs" "int (length xs) = capacity q"
    "0 \<le> count q" "count q \<le> capacity q" "0 < capacity q"
    by (auto simp: queue_inv_def split: option.splits)
  define n where "n = nat (count q)"
  define r where "r = best_index_to_pop xs (count q)"
  define xs' where "xs' = (if r < n - 1 then memmove_msgs xs r (r + 1) (n - r - 1) else xs)"
  define q' where "q' = q\<lparr>buf := Some xs', count := count q - 1\<rparr>"
  from xs ne have n: "0 < n" "n \<le> length xs" "count q = int n" "1 \<le> count q"
    by (auto simp: n_def)
  have spec: "r < n" "\<forall>j<n. beats (xs ! r) (xs ! j)" "\<forall>j<r. \<not> beats (xs ! j) (xs ! r)"
    using best_index_to_pop_spec [OF n(4), of xs] by (simp_all add: r_def n_def)
  have h: "held q = take n xs" by (simp add: held_def xs n_def)
  have cond: "(int r < count q - 1) = (r < n - 1)" using n by auto
  have arg: "nat (count q - int r - 1) = n - r - 1" using n by auto
  have pop: "queue_pop (Some q) (Some old) = (0, Some q', Some (xs ! r))"
    using xs ne by (simp add: queue_pop_def queue_is_empty_def Let_def r_def [symmetric]
        cond arg xs'_def q'_def)
  have len: "length xs' = length xs" by (simp add: xs'_def)
  have h': "held q' = take (n - 1) xs'"
    using n by (simp add: held_def q'_def nat_diff_distrib')
  have 1: "queue_pop (Some q) (Some old) = (0, Some q', Some (held q ! r))"
    using pop spec(1) by (simp add: h)
  have 2: "r < length (held q)" using spec(1) n by (simp add: h)
  have 3: "held q' = take r (held q) @ drop (Suc r) (held q)"
    unfolding h' h xs'_def using take_memmove_down [OF spec(1) n(2)] by simp
  have 4: "queue_inv q'"
    using xs n len by (simp add: queue_inv_def q'_def)
  have 5: "\<forall>j<length (held q). beats (held q ! r) (held q ! j)"
    using spec n by (simp add: h)
  have 6: "\<forall>j<r. \<not> beats (held q ! j) (held q ! r)"
    using spec n by (simp add: h)
  show thesis
    by (rule that [OF 1 2 3 4 _ _ _ 5 6]) (simp_all add: q'_def)
qed

lemma queue_push_full:
  "buf q \<noteq> None \<Longrightarrow> capacity q \<le> count q \<Longrightarrow> queue_push (Some q) (Some m) = (- 2, Some q)"
  by (auto simp: queue_push_def queue_is_full_def split: option.splits)

lemma queue_push_step:
  assumes inv: "queue_inv q" and nf: "count q < capacity q"
  obtains q' where
    "queue_push (Some q) (Some m) = (0, Some q')"
    "held q' = held q @ [m\<lparr>seq := next_seq q\<rparr>]"
    "queue_inv q'" "count q' = count q + 1" "capacity q' = capacity q"
    "next_seq q' = next_seq q + 1"
proof -
  from inv obtain xs where xs: "buf q = Some xs" "int (length xs) = capacity q"
    "0 \<le> count q" "count q \<le> capacity q" "0 < capacity q"
    by (auto simp: queue_inv_def split: option.splits)
  define q' where "q' = q\<lparr>buf := Some (xs[nat (count q) := m\<lparr>seq := next_seq q\<rparr>]),
      next_seq := next_seq q + 1, count := count q + 1\<rparr>"
  have 1: "queue_push (Some q) (Some m) = (0, Some q')"
    using xs nf by (simp add: queue_push_def queue_is_full_def Let_def q'_def)
  have lt: "nat (count q) < length xs" using xs nf by auto
  have 2: "held q' = held q @ [m\<lparr>seq := next_seq q\<rparr>]"
    using xs lt by (simp add: held_def q'_def nat_add_distrib take_Suc_conv_app_nth)
  have 3: "queue_inv q'" using xs nf by (simp add: queue_inv_def q'_def)
  show thesis by (rule that [OF 1 2 3]) (simp_all add: q'_def)
qed

lemma queue_init_success:
  assumes "queue_init mem (Some q0) C = (0, Some q1)"
  shows "queue_inv q1 \<and> capacity q1 = C \<and> count q1 = 0 \<and> next_seq q1 = 1 \<and> held q1 = []"
  using assms
  by (auto simp: queue_init_def calloc_msgs_def queue_inv_def held_def
      split: if_splits option.splits)

lemma queue_init_fresh: "0 < C \<Longrightarrow> queue_init True (Some q_blank) C = (0, Some (q_fresh C))"
  by (simp add: queue_init_def calloc_msgs_def q_blank_def q_fresh_def)

lemma queue_inv_q_three: "queue_inv q_three"
  by (simp add: queue_inv_def q_three_def)

lemma queue_inv_q_one: "queue_inv q_one"
  by (simp add: queue_inv_def q_one_def)

lemma queue_inv_q_fresh: "0 < C \<Longrightarrow> queue_inv (q_fresh C)"
  by (simp add: queue_inv_def q_fresh_def)

text \<open>
  C10. \<open>queue_is_empty\<close> of a null queue is true and \<open>queue_is_full\<close> of a null queue is
  false; both are total boolean functions, and on a non-null queue \<open>queue_is_full\<close> holds
  exactly when \<open>count \<ge> capacity\<close> and \<open>queue_is_empty\<close> exactly when \<open>count = 0\<close>.
\<close>

theorem queue_predicates_total:
  "queue_is_empty None = True \<and> queue_is_full None = False \<and>
   queue_is_full (Some q) = (count q \<ge> capacity q) \<and>
   queue_is_empty (Some q) = (count q = 0)"
  by (simp add: queue_is_empty_def queue_is_full_def)

text \<open>
  C4. On a queue with non-null pointer, storage and message, \<open>queue_push\<close> returns the
  Full code -2 exactly when the count equals the capacity (the code tests
  \<open>count \<ge> capacity\<close>, which on a queue within its invariant is the same), and then
  returns the queue as it was, the sequence counter included. Otherwise it returns 0, the
  held messages are the old ones followed by a copy of the message whose \<open>seq\<close> is the
  old \<open>next_seq\<close>, and \<open>next_seq\<close> and \<open>count\<close> have each grown by one.
\<close>

theorem queue_push_full_or_append:
  assumes "queue_inv q"
  shows "((fst (queue_push (Some q) (Some m)) = - 2) = (count q = capacity q)) \<and>
         (count q = capacity q \<longrightarrow> queue_push (Some q) (Some m) = (- 2, Some q)) \<and>
         (count q \<noteq> capacity q \<longrightarrow>
            (\<exists>q'. queue_push (Some q) (Some m) = (0, Some q') \<and>
                  held q' = held q @ [m\<lparr>seq := next_seq q\<rparr>] \<and>
                  next_seq q' = next_seq q + 1 \<and> count q' = count q + 1 \<and>
                  capacity q' = capacity q \<and> queue_inv q'))"
proof (cases "count q = capacity q")
  case True
  from assms have "buf q \<noteq> None" by (auto simp: queue_inv_def split: option.splits)
  with True have "queue_push (Some q) (Some m) = (- 2, Some q)"
    by (simp add: queue_push_full)
  with True show ?thesis by simp
next
  case False
  with assms have nf: "count q < capacity q"
    by (auto simp: queue_inv_def split: option.splits)
  obtain q' where
    q': "queue_push (Some q) (Some m) = (0, Some q')"
    "held q' = held q @ [m\<lparr>seq := next_seq q\<rparr>]"
    "queue_inv q'" "count q' = count q + 1" "capacity q' = capacity q"
    "next_seq q' = next_seq q + 1"
    by (rule queue_push_step [OF assms nf, where m = m])
  then show ?thesis using False by simp
qed

theorem queue_push_full_or_append_witness:
  "queue_inv q_one \<and> count q_one = capacity q_one \<and>
   queue_push (Some q_one) (Some (pri_msg 9)) = (- 2, Some q_one) \<and>
   queue_inv (q_fresh 1) \<and> count (q_fresh 1) \<noteq> capacity (q_fresh 1) \<and>
   (\<exists>q'. queue_push (Some (q_fresh 1)) (Some (pri_msg 5)) = (0, Some q') \<and>
         held q' = held (q_fresh 1) @ [(pri_msg 5)\<lparr>seq := next_seq (q_fresh 1)\<rparr>] \<and>
         next_seq q' = next_seq (q_fresh 1) + 1 \<and> count q' = count (q_fresh 1) + 1 \<and>
         capacity q' = capacity (q_fresh 1) \<and> queue_inv q')"
proof -
  have full: "count q_one = capacity q_one" by (simp add: q_one_def)
  have room: "count (q_fresh 1) \<noteq> capacity (q_fresh 1)" by (simp add: q_fresh_def)
  have inv1: "queue_inv (q_fresh 1)" by (simp add: queue_inv_q_fresh)
  show ?thesis
    using queue_push_full_or_append [OF queue_inv_q_one, of "pri_msg 9"]
      queue_push_full_or_append [OF inv1, of "pri_msg 5"]
      full room inv1 queue_inv_q_one
    by simp
qed

text \<open>
  C5. On a queue with non-null pointer, storage and output, \<open>queue_pop\<close> returns the
  Empty code -2 exactly when no message is held, and then leaves queue and output as they
  were. Otherwise it returns 0 and the message at some index \<open>r\<close>; one message fewer is
  held, those before \<open>r\<close> stay where they were and every one after \<open>r\<close> has moved
  down by exactly one position.
\<close>

theorem queue_pop_empty_or_shift:
  assumes "queue_inv q"
  shows "((fst (queue_pop (Some q) (Some old)) = - 2) = (count q = 0)) \<and>
         (count q = 0 \<longrightarrow> queue_pop (Some q) (Some old) = (- 2, Some q, Some old)) \<and>
         (count q \<noteq> 0 \<longrightarrow>
            (\<exists>r q'. r < length (held q) \<and>
                  queue_pop (Some q) (Some old) = (0, Some q', Some (held q ! r)) \<and>
                  count q' = count q - 1 \<and> length (held q') = length (held q) - 1 \<and>
                  capacity q' = capacity q \<and> next_seq q' = next_seq q \<and> queue_inv q' \<and>
                  (\<forall>i<r. held q' ! i = held q ! i) \<and>
                  (\<forall>i. r \<le> i \<and> i < length (held q') \<longrightarrow> held q' ! i = held q ! Suc i)))"
proof (cases "count q = 0")
  case True
  from assms have "buf q \<noteq> None" by (auto simp: queue_inv_def split: option.splits)
  with True have "queue_pop (Some q) (Some old) = (- 2, Some q, Some old)"
    by (simp add: queue_pop_empty)
  with True show ?thesis by simp
next
  case False
  let ?h = "held q"
  obtain r q' where
    q': "queue_pop (Some q) (Some old) = (0, Some q', Some (?h ! r))"
    "r < length ?h"
    "held q' = take r ?h @ drop (Suc r) ?h"
    "queue_inv q'" "count q' = count q - 1" "capacity q' = capacity q"
    "next_seq q' = next_seq q"
    by (rule queue_pop_step [OF assms False, where old = old])
  have len: "length (held q') = length ?h - 1"
    using q'(2) unfolding q'(3) by simp
  have lo: "\<forall>i<r. held q' ! i = ?h ! i"
    using q'(2) unfolding q'(3) by (simp add: nth_append)
  have hi: "\<forall>i. r \<le> i \<and> i < length (held q') \<longrightarrow> held q' ! i = ?h ! Suc i"
    using q'(2) len unfolding q'(3) by (auto simp: nth_append min_def)
  show ?thesis
    using False q'(1,2,4,5,6,7) len lo hi by (simp del: ex_simps) blast
qed

theorem queue_pop_empty_or_shift_witness:
  "queue_inv (q_fresh 1) \<and> count (q_fresh 1) = 0 \<and>
   queue_pop (Some (q_fresh 1)) (Some zero_msg) = (- 2, Some (q_fresh 1), Some zero_msg) \<and>
   queue_inv q_three \<and> count q_three \<noteq> 0 \<and>
   (\<exists>r q'. r < length (held q_three) \<and>
         queue_pop (Some q_three) (Some zero_msg) = (0, Some q', Some (held q_three ! r)) \<and>
         count q' = count q_three - 1 \<and> length (held q') = length (held q_three) - 1 \<and>
         capacity q' = capacity q_three \<and> next_seq q' = next_seq q_three \<and> queue_inv q' \<and>
         (\<forall>i<r. held q' ! i = held q_three ! i) \<and>
         (\<forall>i. r \<le> i \<and> i < length (held q') \<longrightarrow> held q' ! i = held q_three ! Suc i))"
proof -
  have e: "count (q_fresh 1) = 0" by (simp add: q_fresh_def)
  have ne: "count q_three \<noteq> 0" by (simp add: q_three_def)
  have inv1: "queue_inv (q_fresh 1)" by (simp add: queue_inv_q_fresh)
  show ?thesis
    using queue_pop_empty_or_shift [OF inv1, of zero_msg]
      queue_pop_empty_or_shift [OF queue_inv_q_three, of zero_msg]
      e ne inv1 queue_inv_q_three
    by simp
qed

section \<open>Sequences of pushes and pops\<close>

lemma unat_next: "pushed < ULONG_MAX \<Longrightarrow> unat (1 + of_nat pushed :: 64 word) = Suc pushed"
  by (simp add: ULONG_MAX_def unat_word_ariths unat_of_nat)

lemma run_inv_step:
  assumes "run_inv C st"
  shows "run_inv C (do_op st op)"
proof -
  obtain q pushed popped where st: "st = (q, pushed, popped)" by (cases st)
  from assms st have inv: "queue_inv q" and cap: "capacity q = C" and le: "popped \<le> pushed"
    and cnt: "count q = int pushed - int popped" and nx: "next_seq q = 1 + of_nat pushed"
    and sq: "pushed \<le> ULONG_MAX \<Longrightarrow> sorted_wrt (\<lambda>a b. seq a < seq b) (held q)"
    and bd: "pushed \<le> ULONG_MAX \<Longrightarrow> \<forall>m \<in> set (held q). unat (seq m) \<le> pushed"
    by (auto simp: run_inv_def)
  from inv have bufq: "buf q \<noteq> None" "0 \<le> count q" "count q \<le> capacity q"
    by (auto simp: queue_inv_def split: option.splits)
  show ?thesis
  proof (cases op)
    case (Push m)
    show ?thesis
    proof (cases "count q < capacity q")
      case False
      with bufq have "queue_push (Some q) (Some m) = (- 2, Some q)"
        by (simp add: queue_push_full)
      with assms st Push show ?thesis by simp
    next
      case True
      obtain q' where
        q': "queue_push (Some q) (Some m) = (0, Some q')"
        "held q' = held q @ [m\<lparr>seq := next_seq q\<rparr>]"
        "queue_inv q'" "count q' = count q + 1" "capacity q' = capacity q"
        "next_seq q' = next_seq q + 1"
        by (rule queue_push_step [OF inv True, where m = m])
      have step: "do_op st op = (q', Suc pushed, popped)"
        using st Push q'(1) by simp
      have seqs: "sorted_wrt (\<lambda>a b. seq a < seq b) (held q') \<and>
          (\<forall>m \<in> set (held q'). unat (seq m) \<le> Suc pushed)" if lt: "Suc pushed \<le> ULONG_MAX"
      proof -
        from lt have lt': "pushed < ULONG_MAX" and le': "pushed \<le> ULONG_MAX" by simp_all
        have u: "unat (next_seq q) = Suc pushed" using nx unat_next [OF lt'] by simp
        have "\<forall>x \<in> set (held q). seq x < next_seq q"
          using bd [OF le'] u by (auto simp: word_less_nat_alt)
        with sq [OF le'] bd [OF le'] u show ?thesis
          by (auto simp: q'(2) sorted_wrt_append le_Suc_eq)
      qed
      have a: "popped \<le> Suc pushed" "count q' = int (Suc pushed) - int popped"
        "next_seq q' = 1 + of_nat (Suc pushed)" "capacity q' = C"
        using q' cap le cnt nx by simp_all
      show ?thesis
        unfolding step run_inv_def using q'(3) a seqs by simp
    qed
  next
    case Pop
    show ?thesis
    proof (cases "count q = 0")
      case True
      with bufq have "queue_pop (Some q) (Some zero_msg) = (- 2, Some q, Some zero_msg)"
        by (simp add: queue_pop_empty)
      with assms st Pop show ?thesis by simp
    next
      case False
      obtain r q' where
        q': "queue_pop (Some q) (Some zero_msg) = (0, Some q', Some (held q ! r))"
        "r < length (held q)"
        "held q' = take r (held q) @ drop (Suc r) (held q)"
        "queue_inv q'" "count q' = count q - 1" "capacity q' = capacity q"
        "next_seq q' = next_seq q"
        by (rule queue_pop_step [OF inv False, where old = zero_msg])
      have step: "do_op st op = (q', pushed, Suc popped)"
        using st Pop q'(1) by simp
      have sub: "set (held q') \<subseteq> set (held q)"
        unfolding q'(3) by (auto dest: in_set_takeD in_set_dropD)
      have srt: "sorted_wrt (\<lambda>a b. seq a < seq b) (held q')"
        if a: "sorted_wrt (\<lambda>a b. seq a < seq b) (held q)"
      proof -
        have "held q = take r (held q) @ held q ! r # drop (Suc r) (held q)"
          using q'(2) by (simp add: id_take_nth_drop [symmetric])
        with a have "sorted_wrt (\<lambda>a b. seq a < seq b)
            (take r (held q) @ held q ! r # drop (Suc r) (held q))"
          by simp
        then show ?thesis unfolding q'(3) by (simp add: sorted_wrt_append)
      qed
      from False bufq cnt have "popped < pushed" by simp
      then have a: "Suc popped \<le> pushed" "count q' = int pushed - int (Suc popped)"
        "next_seq q' = 1 + of_nat pushed" "capacity q' = C"
        using q' cap cnt nx by simp_all
      have b: "sorted_wrt (\<lambda>a b. seq a < seq b) (held q') \<and>
          (\<forall>m \<in> set (held q'). unat (seq m) \<le> pushed)" if lt: "pushed \<le> ULONG_MAX"
        using srt [OF sq [OF lt]] bd [OF lt] sub by blast
      show ?thesis
        unfolding step run_inv_def using q'(4) a b by simp
    qed
  qed
qed

lemma run_inv_foldl: "run_inv C st \<Longrightarrow> run_inv C (foldl do_op st ops)"
  by (induction ops arbitrary: st) (simp_all add: run_inv_step)

lemma run_inv_init:
  "queue_init mem (Some q0) C = (0, Some q1) \<Longrightarrow> run_inv C (q1, 0, 0)"
  using queue_init_success [of mem q0 C q1] by (simp add: run_inv_def)

lemma length_stamp [simp]: "length (stamp s ms) = length ms"
  by (induction ms arbitrary: s) simp_all

lemma seq_stamp: "i < length ms \<Longrightarrow> seq (stamp s ms ! i) = s + of_nat i"
proof (induction ms arbitrary: s i)
  case Nil
  then show ?case by simp
next
  case (Cons m ms)
  show ?case
  proof (cases i)
    case 0
    then show ?thesis by simp
  next
    case (Suc j)
    with Cons.prems have "j < length ms" by simp
    from Cons.IH [OF this, of "s + 1"] Suc show ?thesis by simp
  qed
qed

lemma sorted_seq_distinct:
  "sorted_wrt (\<lambda>a b. seq a < seq b) xs \<Longrightarrow> distinct (map seq xs)"
  by (induction xs) auto

lemma push_all:
  "queue_inv q \<Longrightarrow> count q + int (length ms) \<le> capacity q \<Longrightarrow>
   \<exists>q'. foldl do_op (q, a, b) (map Push ms) = (q', a + length ms, b) \<and>
        held q' = held q @ stamp (next_seq q) ms \<and> queue_inv q' \<and>
        capacity q' = capacity q"
proof (induction ms arbitrary: q a)
  case Nil
  then show ?case by simp
next
  case (Cons m ms)
  from Cons.prems have nf: "count q < capacity q" by simp
  obtain q1 where
    q1: "queue_push (Some q) (Some m) = (0, Some q1)"
    "held q1 = held q @ [m\<lparr>seq := next_seq q\<rparr>]"
    "queue_inv q1" "count q1 = count q + 1" "capacity q1 = capacity q"
    "next_seq q1 = next_seq q + 1"
    by (rule queue_push_step [OF Cons.prems(1) nf, where m = m])
  have room: "count q1 + int (length ms) \<le> capacity q1"
    using Cons.prems(2) q1 by simp
  from Cons.IH [OF q1(3) room, of "Suc a"] obtain q' where
    q': "foldl do_op (q1, Suc a, b) (map Push ms) = (q', Suc a + length ms, b)"
    "held q' = held q1 @ stamp (next_seq q1) ms" "queue_inv q'" "capacity q' = capacity q1"
    by blast
  have "foldl do_op (q, a, b) (map Push (m # ms)) = (q', a + length (m # ms), b)"
    using q1(1) q'(1) by simp
  moreover have "held q' = held q @ stamp (next_seq q) (m # ms)"
    using q'(2) q1 by simp
  moreover have "capacity q' = capacity q" using q'(4) q1(5) by simp
  ultimately show ?case using q'(3) by (intro exI [of _ q']) simp
qed

lemma drain_stable:
  "queue_inv q \<Longrightarrow> sorted_wrt (\<lambda>a b. seq a < seq b) (held q) \<Longrightarrow>
   length (held q) < fuel \<Longrightarrow>
   \<exists>out. drain fuel q = Some out \<and> length out = length (held q) \<and>
     set out = set (held q) \<and>
     sorted_wrt (\<lambda>a b. priority a \<ge> priority b) out \<and>
     (\<forall>p. filter (\<lambda>m. priority m = p) out = filter (\<lambda>m. priority m = p) (held q))"
proof (induction fuel arbitrary: q)
  case 0
  then show ?case by simp
next
  case (Suc fuel)
  from Suc.prems(1) have bufq: "buf q \<noteq> None"
    by (auto simp: queue_inv_def split: option.splits)
  show ?case
  proof (cases "count q = 0")
    case True
    with bufq have "queue_pop (Some q) (Some zero_msg) = (- 2, Some q, Some zero_msg)"
      by (simp add: queue_pop_empty)
    moreover from True Suc.prems(1) have "held q = []"
      using held_length [of q] by simp
    ultimately show ?thesis by simp
  next
    case False
    let ?h = "held q"
    obtain r q' where
      q': "queue_pop (Some q) (Some zero_msg) = (0, Some q', Some (?h ! r))"
      "r < length ?h"
      "held q' = take r ?h @ drop (Suc r) ?h"
      "queue_inv q'" "count q' = count q - 1" "capacity q' = capacity q"
      "next_seq q' = next_seq q"
      "\<forall>j<length ?h. beats (?h ! r) (?h ! j)"
      "\<forall>j<r. \<not> beats (?h ! j) (?h ! r)"
      by (rule queue_pop_step [OF Suc.prems(1) False, where old = zero_msg])
    have split: "?h = take r ?h @ ?h ! r # drop (Suc r) ?h"
      using q'(2) by (simp add: id_take_nth_drop [symmetric])
    have srt: "sorted_wrt (\<lambda>a b. seq a < seq b) (take r ?h @ ?h ! r # drop (Suc r) ?h)"
      using Suc.prems(2) split by simp
    then have srt': "sorted_wrt (\<lambda>a b. seq a < seq b) (held q')"
      unfolding q'(3) by (simp add: sorted_wrt_append)
    have len': "length (held q') = length ?h - 1"
      using q'(2) unfolding q'(3) by simp
    with Suc.prems(3) have "length (held q') < fuel" using q'(2) by simp
    from Suc.IH [OF q'(4) srt' this] obtain out where
      out: "drain fuel q' = Some out" "length out = length (held q')"
      "set out = set (held q')"
      "sorted_wrt (\<lambda>a b. priority a \<ge> priority b) out"
      "\<forall>p. filter (\<lambda>m. priority m = p) out = filter (\<lambda>m. priority m = p) (held q')"
      by blast
    have dr: "drain (Suc fuel) q = Some (?h ! r # out)"
      using q'(1) out(1) by simp
    have sub: "set (held q') \<subseteq> set ?h"
      unfolding q'(3) by (auto dest: in_set_takeD in_set_dropD)
    have top: "priority y \<le> priority (?h ! r)" if "y \<in> set ?h" for y
    proof -
      from that obtain j where "j < length ?h" "y = ?h ! j" by (auto simp: in_set_conv_nth)
      with q'(8) show ?thesis by (auto simp: beats_def)
    qed
    have first: "priority y \<noteq> priority (?h ! r)" if "y \<in> set (take r ?h)" for y
    proof -
      from that q'(2) obtain j where j: "j < r" "y = ?h ! j"
        by (auto simp: in_set_conv_nth)
      from Suc.prems(2) j(1) q'(2) have "seq (?h ! j) < seq (?h ! r)"
        by (simp add: sorted_wrt_iff_nth_less)
      with q'(9) j show ?thesis by (auto simp: beats_def)
    qed
    have 1: "length (?h ! r # out) = length ?h"
      using out(2) len' q'(2) by simp
    have 2: "set (?h ! r # out) = set ?h"
    proof -
      have "set ?h = set (take r ?h @ ?h ! r # drop (Suc r) ?h)" using split by simp
      then show ?thesis unfolding q'(3) using out(3) q'(3) by auto
    qed
    have 3: "sorted_wrt (\<lambda>a b. priority a \<ge> priority b) (?h ! r # out)"
      using out(3,4) sub top by auto
    have 4: "filter (\<lambda>m. priority m = p) (?h ! r # out) = filter (\<lambda>m. priority m = p) ?h" for p
    proof -
      have a: "filter (\<lambda>m. priority m = p) ?h =
          filter (\<lambda>m. priority m = p) (take r ?h) @
          filter (\<lambda>m. priority m = p) (?h ! r # drop (Suc r) ?h)"
        using split filter_append by metis
      have b: "filter (\<lambda>m. priority m = p) out =
          filter (\<lambda>m. priority m = p) (take r ?h) @ filter (\<lambda>m. priority m = p) (drop (Suc r) ?h)"
        using out(5) unfolding q'(3) by simp
      show ?thesis
      proof (cases "priority (?h ! r) = p")
        case True
        with first have "filter (\<lambda>m. priority m = p) (take r ?h) = []"
          by (auto simp: filter_empty_conv)
        with a b True show ?thesis by simp
      next
        case False
        with a b show ?thesis by simp
      qed
    qed
    show ?thesis using dr 1 2 3 4 by (intro exI [of _ "?h ! r # out"]) simp
  qed
qed

lemma push_pop_cycles:
  "queue_inv q \<Longrightarrow> count q = 0 \<Longrightarrow>
   \<exists>q'. foldl do_op (q, a, b) (concat (replicate k [Push m, Pop])) = (q', a + k, b + k) \<and>
        queue_inv q' \<and> count q' = 0 \<and> capacity q' = capacity q \<and>
        next_seq q' = next_seq q + of_nat k"
proof (induction k arbitrary: q a b)
  case 0
  then show ?case by simp
next
  case (Suc k)
  from Suc.prems have nf: "count q < capacity q"
    by (auto simp: queue_inv_def split: option.splits)
  obtain q1 where
    q1: "queue_push (Some q) (Some m) = (0, Some q1)"
    "held q1 = held q @ [m\<lparr>seq := next_seq q\<rparr>]"
    "queue_inv q1" "count q1 = count q + 1" "capacity q1 = capacity q"
    "next_seq q1 = next_seq q + 1"
    by (rule queue_push_step [OF Suc.prems(1) nf, where m = m])
  from q1(4) Suc.prems(2) have ne: "count q1 \<noteq> 0" by simp
  obtain r q2 where
    q2: "queue_pop (Some q1) (Some zero_msg) = (0, Some q2, Some (held q1 ! r))"
    "r < length (held q1)"
    "held q2 = take r (held q1) @ drop (Suc r) (held q1)"
    "queue_inv q2" "count q2 = count q1 - 1" "capacity q2 = capacity q1"
    "next_seq q2 = next_seq q1"
    by (rule queue_pop_step [OF q1(3) ne, where old = zero_msg])
  have c0: "count q2 = 0" using q2(5) q1(4) Suc.prems(2) by simp
  from Suc.IH [OF q2(4) c0, of "Suc a" "Suc b"] obtain q' where
    q': "foldl do_op (q2, Suc a, Suc b) (concat (replicate k [Push m, Pop])) =
           (q', Suc a + k, Suc b + k)"
    "queue_inv q'" "count q' = 0" "capacity q' = capacity q2"
    "next_seq q' = next_seq q2 + of_nat k"
    by blast
  have 1: "foldl do_op (q, a, b) (concat (replicate (Suc k) [Push m, Pop])) =
      (q', a + Suc k, b + Suc k)"
    using q1(1) q2(1) q'(1) by simp
  have 2: "capacity q' = capacity q" using q'(4) q2(6) q1(5) by simp
  have 3: "next_seq q' = next_seq q + of_nat (Suc k)" using q'(5) q2(7) q1(6) by simp
  show ?case using 1 2 3 q'(2,3) by (intro exI [of _ q']) simp
qed

lemma length_cycles: "length (concat (replicate k [a, b])) = 2 * k"
  by (induction k) simp_all

text \<open>
  C1, as amended. On every queue that holds a message, \<open>queue_pop\<close> removes and returns
  a held message of greatest priority, and among the held messages of that priority one
  of smallest sequence number. That message is the earliest inserted of them as long as no
  more than \<open>ULONG_MAX\<close> pushes have succeeded since \<open>queue_init\<close>: take any state
  reached from a fresh queue of capacity \<open>C\<close> by pushes and pops, and push any
  messages \<open>ms\<close> that fit, the successful pushes staying within \<open>ULONG_MAX\<close> in
  all. Every push succeeds and the held messages are the old ones followed by \<open>ms\<close> in
  the order pushed; each new message carries as its sequence number the number of its
  push among the successful ones since \<open>queue_init\<close>, and the sequence numbers of the
  held messages grow strictly along that order; \<open>queue_pop\<close> returns the first in that
  order of the messages of greatest priority; and popping until the queue is empty ends
  and returns the held messages in non-increasing priority order, those of each priority
  in the order they went in.
\<close>

theorem queue_pop_best_then_stable:
  "(queue_inv q \<and> count q \<noteq> 0 \<longrightarrow>
      (\<exists>r q'. r < length (held q) \<and>
          queue_pop (Some q) (Some old) = (0, Some q', Some (held q ! r)) \<and>
          held q' = take r (held q) @ drop (Suc r) (held q) \<and>
          (\<forall>m \<in> set (held q). priority m \<le> priority (held q ! r) \<and>
             (priority m = priority (held q ! r) \<longrightarrow> seq (held q ! r) \<le> seq m)))) \<and>
   (queue_init mem (Some q0) C = (0, Some q1) \<and> run_ops q1 ops = (qa, pushed, popped) \<and>
    count qa + int (length ms) \<le> C \<and> pushed + length ms \<le> ULONG_MAX \<and>
    nat (count qa) + length ms < fuel \<longrightarrow>
      (\<exists>qb out. run_ops q1 (ops @ map Push ms) = (qb, pushed + length ms, popped) \<and>
          held qb = held qa @ stamp (next_seq qa) ms \<and> queue_inv qb \<and>
          (\<forall>i < length ms. unat (seq (held qb ! (length (held qa) + i))) = Suc (pushed + i)) \<and>
          sorted_wrt (\<lambda>a b. seq a < seq b) (held qb) \<and>
          (count qb \<noteq> 0 \<longrightarrow>
             (\<exists>r q'. r < length (held qb) \<and>
                 queue_pop (Some qb) (Some old) = (0, Some q', Some (held qb ! r)) \<and>
                 held q' = take r (held qb) @ drop (Suc r) (held qb) \<and>
                 (\<forall>j < length (held qb). priority (held qb ! j) \<le> priority (held qb ! r) \<and>
                    (priority (held qb ! j) = priority (held qb ! r) \<longrightarrow> r \<le> j)))) \<and>
          drain fuel qb = Some out \<and> length out = length (held qb) \<and>
          set out = set (held qb) \<and>
          sorted_wrt (\<lambda>a b. priority b \<le> priority a) out \<and>
          (\<forall>p. filter (\<lambda>m. priority m = p) out = filter (\<lambda>m. priority m = p) (held qb))))"
proof (rule conjI; rule impI)
  assume a: "queue_inv q \<and> count q \<noteq> 0"
  let ?h = "held q"
  obtain r q' where
    q': "queue_pop (Some q) (Some old) = (0, Some q', Some (?h ! r))"
    "r < length ?h"
    "held q' = take r ?h @ drop (Suc r) ?h"
    "queue_inv q'" "count q' = count q - 1" "capacity q' = capacity q"
    "next_seq q' = next_seq q"
    "\<forall>j<length ?h. beats (?h ! r) (?h ! j)"
    "\<forall>j<r. \<not> beats (?h ! j) (?h ! r)"
    using a by (elim conjE) (rule queue_pop_step [where q = q and old = old])
  have best: "priority m \<le> priority (?h ! r) \<and>
      (priority m = priority (?h ! r) \<longrightarrow> seq (?h ! r) \<le> seq m)" if "m \<in> set ?h" for m
  proof -
    from that obtain j where "j < length ?h" "m = ?h ! j" by (auto simp: in_set_conv_nth)
    with q'(8) show ?thesis by (auto simp: beats_def)
  qed
  show "\<exists>r q'. r < length ?h \<and>
          queue_pop (Some q) (Some old) = (0, Some q', Some (?h ! r)) \<and>
          held q' = take r ?h @ drop (Suc r) ?h \<and>
          (\<forall>m \<in> set ?h. priority m \<le> priority (?h ! r) \<and>
             (priority m = priority (?h ! r) \<longrightarrow> seq (?h ! r) \<le> seq m))"
    using q'(1,2,3) best by blast
next
  assume b: "queue_init mem (Some q0) C = (0, Some q1) \<and> run_ops q1 ops = (qa, pushed, popped) \<and>
    count qa + int (length ms) \<le> C \<and> pushed + length ms \<le> ULONG_MAX \<and>
    nat (count qa) + length ms < fuel"
  then have init: "queue_init mem (Some q0) C = (0, Some q1)"
    and run: "run_ops q1 ops = (qa, pushed, popped)"
    and room: "count qa + int (length ms) \<le> C"
    and bound: "pushed + length ms \<le> ULONG_MAX"
    and fuel: "nat (count qa) + length ms < fuel" by simp_all
  have inva: "run_inv C (qa, pushed, popped)"
    using run_inv_foldl [OF run_inv_init [OF init], of ops] run by (simp add: run_ops_def)
  then have qa: "queue_inv qa" "capacity qa = C" by (simp_all add: run_inv_def)
  have "count qa + int (length ms) \<le> capacity qa" using qa room by simp
  from push_all [OF qa(1) this, of pushed popped] obtain qb where
    qb: "foldl do_op (qa, pushed, popped) (map Push ms) = (qb, pushed + length ms, popped)"
    "held qb = held qa @ stamp (next_seq qa) ms" "queue_inv qb"
    by auto
  have runb: "run_ops q1 (ops @ map Push ms) = (qb, pushed + length ms, popped)"
    using run qb(1) by (simp add: run_ops_def)
  have "run_inv C (qb, pushed + length ms, popped)"
    using run_inv_foldl [OF inva, of "map Push ms"] qb(1) by simp
  with bound have srt: "sorted_wrt (\<lambda>a b. seq a < seq b) (held qb)"
    by (simp add: run_inv_def)
  let ?h = "held qb"
  have len: "length ?h = nat (count qa) + length ms"
    using held_length [OF qa(1)] by (simp add: qb(2))
  have pop: "\<exists>r q'. r < length ?h \<and>
      queue_pop (Some qb) (Some old) = (0, Some q', Some (?h ! r)) \<and>
      held q' = take r ?h @ drop (Suc r) ?h \<and>
      (\<forall>j < length ?h. priority (?h ! j) \<le> priority (?h ! r) \<and>
         (priority (?h ! j) = priority (?h ! r) \<longrightarrow> r \<le> j))" if ne: "count qb \<noteq> 0"
  proof -
    obtain r q' where
      q': "queue_pop (Some qb) (Some old) = (0, Some q', Some (?h ! r))"
      "r < length ?h"
      "held q' = take r ?h @ drop (Suc r) ?h"
      "queue_inv q'" "count q' = count qb - 1" "capacity q' = capacity qb"
      "next_seq q' = next_seq qb"
      "\<forall>j<length ?h. beats (?h ! r) (?h ! j)"
      "\<forall>j<r. \<not> beats (?h ! j) (?h ! r)"
      by (rule queue_pop_step [OF qb(3) ne, where old = old])
    have first: "priority (?h ! j) \<le> priority (?h ! r) \<and>
        (priority (?h ! j) = priority (?h ! r) \<longrightarrow> r \<le> j)" if j: "j < length ?h" for j
    proof -
      from q'(8) j have top: "priority (?h ! j) \<le> priority (?h ! r)"
        by (auto simp: beats_def)
      have "r \<le> j" if eq: "priority (?h ! j) = priority (?h ! r)"
      proof (rule ccontr)
        assume "\<not> r \<le> j"
        then have lt: "j < r" by simp
        with srt q'(2) have "seq (?h ! j) < seq (?h ! r)"
          by (simp add: sorted_wrt_iff_nth_less)
        with eq have "beats (?h ! j) (?h ! r)" by (simp add: beats_def)
        with q'(9) lt show False by simp
      qed
      with top show ?thesis by simp
    qed
    show ?thesis using q'(1,2,3) first by blast
  qed
  have num: "unat (seq (?h ! (length (held qa) + i))) = Suc (pushed + i)" if i: "i < length ms" for i
  proof -
    from inva have nx: "next_seq qa = 1 + of_nat pushed" by (simp add: run_inv_def)
    from i bound have lt: "pushed + i < ULONG_MAX" by simp
    have "seq (?h ! (length (held qa) + i)) = next_seq qa + of_nat i"
      using seq_stamp [OF i] by (simp add: qb(2))
    also have "\<dots> = 1 + of_nat (pushed + i)" by (simp add: nx)
    finally show ?thesis using unat_next [OF lt] by simp
  qed
  from fuel len have "length ?h < fuel" by simp
  from drain_stable [OF qb(3) srt this] obtain out where
    out: "drain fuel qb = Some out" "length out = length ?h" "set out = set ?h"
    "sorted_wrt (\<lambda>a b. priority a \<ge> priority b) out"
    "\<forall>p. filter (\<lambda>m. priority m = p) out = filter (\<lambda>m. priority m = p) ?h"
    by blast
  show "\<exists>qb out. run_ops q1 (ops @ map Push ms) = (qb, pushed + length ms, popped) \<and>
          held qb = held qa @ stamp (next_seq qa) ms \<and> queue_inv qb \<and>
          (\<forall>i < length ms. unat (seq (held qb ! (length (held qa) + i))) = Suc (pushed + i)) \<and>
          sorted_wrt (\<lambda>a b. seq a < seq b) (held qb) \<and>
          (count qb \<noteq> 0 \<longrightarrow>
             (\<exists>r q'. r < length (held qb) \<and>
                 queue_pop (Some qb) (Some old) = (0, Some q', Some (held qb ! r)) \<and>
                 held q' = take r (held qb) @ drop (Suc r) (held qb) \<and>
                 (\<forall>j < length (held qb). priority (held qb ! j) \<le> priority (held qb ! r) \<and>
                    (priority (held qb ! j) = priority (held qb ! r) \<longrightarrow> r \<le> j)))) \<and>
          drain fuel qb = Some out \<and> length out = length (held qb) \<and>
          set out = set (held qb) \<and>
          sorted_wrt (\<lambda>a b. priority b \<le> priority a) out \<and>
          (\<forall>p. filter (\<lambda>m. priority m = p) out = filter (\<lambda>m. priority m = p) (held qb))"
    using runb qb(2,3) num srt pop out by (intro exI [of _ qb] exI [of _ out]) simp
qed

theorem queue_pop_best_then_stable_witness:
  "queue_inv q_three \<and> count q_three \<noteq> 0 \<and>
   (\<exists>r q'. r < length (held q_three) \<and>
       queue_pop (Some q_three) (Some zero_msg) = (0, Some q', Some (held q_three ! r)) \<and>
       held q' = take r (held q_three) @ drop (Suc r) (held q_three) \<and>
       (\<forall>m \<in> set (held q_three). priority m \<le> priority (held q_three ! r) \<and>
          (priority m = priority (held q_three ! r) \<longrightarrow> seq (held q_three ! r) \<le> seq m))) \<and>
   queue_init True (Some q_blank) 3 = (0, Some (q_fresh 3)) \<and>
   run_ops (q_fresh 3) [Push (pri_msg 1), Pop] = (q_used, 1, 1) \<and>
   count q_used + int (length [msg_early, msg_late, pri_msg 7]) \<le> 3 \<and>
   1 + length [msg_early, msg_late, pri_msg 7] \<le> ULONG_MAX \<and>
   nat (count q_used) + length [msg_early, msg_late, pri_msg 7] < 4 \<and>
   run_ops (q_fresh 3) ([Push (pri_msg 1), Pop] @ map Push [msg_early, msg_late, pri_msg 7]) =
     (q_refilled, 1 + length [msg_early, msg_late, pri_msg 7], 1) \<and>
   held q_refilled = held q_used @ stamp (next_seq q_used) [msg_early, msg_late, pri_msg 7] \<and>
   queue_inv q_refilled \<and> map (unat \<circ> seq) (held q_refilled) = [2, 3, 4] \<and>
   held q_refilled = [msg_early\<lparr>seq := 2\<rparr>, msg_late\<lparr>seq := 3\<rparr>, (pri_msg 7)\<lparr>seq := 4\<rparr>] \<and>
   sorted_wrt (\<lambda>a b. seq a < seq b) (held q_refilled) \<and>
   count q_refilled \<noteq> 0 \<and>
   (\<exists>r q'. r < length (held q_refilled) \<and>
       queue_pop (Some q_refilled) (Some zero_msg) = (0, Some q', Some (held q_refilled ! r)) \<and>
       held q' = take r (held q_refilled) @ drop (Suc r) (held q_refilled) \<and>
       (\<forall>j < length (held q_refilled).
          priority (held q_refilled ! j) \<le> priority (held q_refilled ! r) \<and>
          (priority (held q_refilled ! j) = priority (held q_refilled ! r) \<longrightarrow> r \<le> j))) \<and>
   drain 4 q_refilled =
     Some [(pri_msg 7)\<lparr>seq := 4\<rparr>, msg_early\<lparr>seq := 2\<rparr>, msg_late\<lparr>seq := 3\<rparr>] \<and>
   sorted_wrt (\<lambda>a b. priority b \<le> priority a)
     [(pri_msg 7)\<lparr>seq := 4\<rparr>, msg_early\<lparr>seq := 2\<rparr>, msg_late\<lparr>seq := 3\<rparr>] \<and>
   (\<forall>p. filter (\<lambda>m. priority m = p)
          [(pri_msg 7)\<lparr>seq := 4\<rparr>, msg_early\<lparr>seq := 2\<rparr>, msg_late\<lparr>seq := 3\<rparr>] =
        filter (\<lambda>m. priority m = p) (held q_refilled))"
proof -
  let ?ms = "[msg_early, msg_late, pri_msg 7]"
  let ?ops = "[Push (pri_msg 1), Pop]"
  let ?out = "[(pri_msg 7)\<lparr>seq := 4\<rparr>, msg_early\<lparr>seq := 2\<rparr>, msg_late\<lparr>seq := 3\<rparr>]"
  have ne: "count q_three \<noteq> 0" by (simp add: q_three_def)
  have init: "queue_init True (Some q_blank) 3 = (0, Some (q_fresh 3))"
    by (simp add: queue_init_fresh)
  have runa: "run_ops (q_fresh 3) ?ops = (q_used, 1, 1)"
    by (simp add: run_ops_def q_fresh_def q_used_def queue_push_def queue_pop_def
        queue_is_full_def queue_is_empty_def best_index_to_pop_def best_loop.simps
        memmove_msgs_def pri_msg_def zero_msg_def numeral_3_eq_3)
  have runb: "run_ops (q_fresh 3) (?ops @ map Push ?ms) = (q_refilled, 1 + length ?ms, 1)"
    by (simp add: run_ops_def q_fresh_def q_refilled_def queue_push_def queue_pop_def
        queue_is_full_def queue_is_empty_def best_index_to_pop_def best_loop.simps
        memmove_msgs_def msg_early_def msg_late_def pri_msg_def zero_msg_def numeral_3_eq_3)
  have room: "count q_used + int (length ?ms) \<le> 3" by (simp add: q_used_def)
  have bound: "1 + length ?ms \<le> ULONG_MAX" by (simp add: ULONG_MAX_def)
  have fuel: "nat (count q_used) + length ?ms < 4" by (simp add: q_used_def)
  have hb: "held q_refilled = [msg_early\<lparr>seq := 2\<rparr>, msg_late\<lparr>seq := 3\<rparr>, (pri_msg 7)\<lparr>seq := 4\<rparr>]"
    by (simp add: held_def q_refilled_def)
  have neb: "count q_refilled \<noteq> 0" by (simp add: q_refilled_def)
  have four: "drain 4 = drain (Suc (Suc (Suc (Suc 0))))" by (simp add: numeral_eq_Suc)
  have out: "drain 4 q_refilled = Some ?out"
    by (simp add: four q_refilled_def queue_pop_def queue_is_empty_def best_index_to_pop_def
        best_loop.simps memmove_msgs_def msg_early_def msg_late_def pri_msg_def zero_msg_def
        upt_rec nth_Cons')
  note t = queue_pop_best_then_stable [where q = q_three and old = zero_msg and mem = True
      and ?q0.0 = q_blank and C = 3 and ?q1.0 = "q_fresh 3" and ops = ?ops and qa = q_used
      and pushed = 1 and popped = 1 and ms = ?ms and fuel = 4]
  from t [THEN conjunct1] queue_inv_q_three ne have a: "\<exists>r q'. r < length (held q_three) \<and>
       queue_pop (Some q_three) (Some zero_msg) = (0, Some q', Some (held q_three ! r)) \<and>
       held q' = take r (held q_three) @ drop (Suc r) (held q_three) \<and>
       (\<forall>m \<in> set (held q_three). priority m \<le> priority (held q_three ! r) \<and>
          (priority m = priority (held q_three ! r) \<longrightarrow> seq (held q_three ! r) \<le> seq m))"
    by blast
  have hyps: "queue_init True (Some q_blank) 3 = (0, Some (q_fresh 3)) \<and>
      run_ops (q_fresh 3) ?ops = (q_used, 1, 1) \<and>
      count q_used + int (length ?ms) \<le> 3 \<and> 1 + length ?ms \<le> ULONG_MAX \<and>
      nat (count q_used) + length ?ms < 4"
    using init runa room bound fuel by simp
  from t [THEN conjunct2, THEN mp, OF hyps] obtain qb res where
    b: "run_ops (q_fresh 3) (?ops @ map Push ?ms) = (qb, 1 + length ?ms, 1)"
    "held qb = held q_used @ stamp (next_seq q_used) ?ms" "queue_inv qb"
    "\<forall>i < length ?ms. unat (seq (held qb ! (length (held q_used) + i))) = Suc (1 + i)"
    "sorted_wrt (\<lambda>a b. seq a < seq b) (held qb)"
    "count qb \<noteq> 0 \<longrightarrow>
       (\<exists>r q'. r < length (held qb) \<and>
           queue_pop (Some qb) (Some zero_msg) = (0, Some q', Some (held qb ! r)) \<and>
           held q' = take r (held qb) @ drop (Suc r) (held qb) \<and>
           (\<forall>j < length (held qb). priority (held qb ! j) \<le> priority (held qb ! r) \<and>
              (priority (held qb ! j) = priority (held qb ! r) \<longrightarrow> r \<le> j)))"
    "drain 4 qb = Some res"
    "sorted_wrt (\<lambda>a b. priority b \<le> priority a) res"
    "\<forall>p. filter (\<lambda>m. priority m = p) res = filter (\<lambda>m. priority m = p) (held qb)"
    by (elim exE conjE)
  from b(1) runb have qb: "qb = q_refilled" by simp
  from b(7) out have res: "res = ?out" by (simp add: qb)
  have hu: "length (held q_used) = 0" by (simp add: held_def q_used_def)
  from b(4) [unfolded qb hu]
  have "unat (seq (held q_refilled ! 0)) = 2" "unat (seq (held q_refilled ! 1)) = 3"
    "unat (seq (held q_refilled ! 2)) = 4"
    by simp_all
  then have nums: "map (unat \<circ> seq) (held q_refilled) = [2, 3, 4]"
    by (simp add: hb)
  show ?thesis
    using a queue_inv_q_three ne init runa room bound fuel runb hb neb out nums
      b(2,3,5,6,8,9) [unfolded qb res]
    by simp
qed

text \<open>
  C1 as stated, for every queue state and every sequence of inserts that fits, fails once
  the \<open>unsigned long\<close> counter \<open>next_seq\<close> has wrapped around. On a fresh queue of
  capacity 2, \<open>ULONG_MAX - 1\<close> rounds of push and pop leave the queue empty. Two
  messages of equal priority are then pushed, \<open>msg_early\<close> before \<open>msg_late\<close>; every
  call so far has succeeded. The first is stamped \<open>ULONG_MAX\<close> and the second 0, so
  \<open>queue_pop\<close> returns \<open>msg_late\<close>, the later inserted of the two, and popping until
  empty returns them in the reverse of their insertion order.
\<close>

theorem later_insert_popped_first_after_wrap:
  "queue_init True (Some q_blank) 2 = (0, Some (q_fresh 2)) \<and>
   length cycle_ops = (ULONG_MAX - 1) + (ULONG_MAX - 1) \<and>
   snd (run_ops (q_fresh 2) cycle_ops) = (ULONG_MAX - 1, ULONG_MAX - 1) \<and>
   held (fst (run_ops (q_fresh 2) cycle_ops)) = [] \<and>
   run_ops (q_fresh 2) late_ops = (q_late, ULONG_MAX + 1, ULONG_MAX - 1) \<and>
   length late_ops = (ULONG_MAX + 1) + (ULONG_MAX - 1) \<and>
   held q_late = [msg_early\<lparr>seq := - 1\<rparr>, msg_late\<lparr>seq := 0\<rparr>] \<and>
   unat (seq (held q_late ! 0)) = ULONG_MAX \<and> unat (seq (held q_late ! 1)) = 0 \<and>
   priority msg_early = priority msg_late \<and>
   fst (queue_pop (Some q_late) (Some zero_msg)) = 0 \<and>
   snd (snd (queue_pop (Some q_late) (Some zero_msg))) = Some (msg_late\<lparr>seq := 0\<rparr>) \<and>
   drain 3 q_late = Some [msg_late\<lparr>seq := 0\<rparr>, msg_early\<lparr>seq := - 1\<rparr>] \<and>
   drain 3 q_late = Some (rev (held q_late)) \<and> rev (held q_late) \<noteq> held q_late"
proof -
  have init: "queue_init True (Some q_blank) 2 = (0, Some (q_fresh 2))"
    by (simp add: queue_init_fresh)
  from queue_init_success [OF init] have f: "queue_inv (q_fresh 2)" "count (q_fresh 2) = 0"
    "capacity (q_fresh 2) = 2" "next_seq (q_fresh 2) = 1" by simp_all
  from push_pop_cycles [OF f(1,2), of 0 0 "ULONG_MAX - 1" zero_msg] obtain q' where
    q': "foldl do_op (q_fresh 2, 0, 0) (concat (replicate (ULONG_MAX - 1) [Push zero_msg, Pop])) =
           (q', ULONG_MAX - 1, ULONG_MAX - 1)"
    "queue_inv q'" "count q' = 0" "capacity q' = 2"
    "next_seq q' = 1 + of_nat (ULONG_MAX - 1)"
    using f(3,4) by auto
  have nx: "next_seq q' = - 1" using q'(5) by (simp add: ULONG_MAX_def)
  have h': "held q' = []" using held_length [OF q'(2)] q'(3) by simp
  have cyc: "run_ops (q_fresh 2) cycle_ops = (q', ULONG_MAX - 1, ULONG_MAX - 1)"
    using q'(1) by (simp add: run_ops_def cycle_ops_def)
  have nf: "count q' < capacity q'" using q'(3,4) by simp
  obtain q2 where
    q2: "queue_push (Some q') (Some msg_early) = (0, Some q2)"
    "held q2 = held q' @ [msg_early\<lparr>seq := next_seq q'\<rparr>]"
    "queue_inv q2" "count q2 = count q' + 1" "capacity q2 = capacity q'"
    "next_seq q2 = next_seq q' + 1"
    by (rule queue_push_step [OF q'(2) nf, where m = msg_early])
  have nf2: "count q2 < capacity q2" using q2(4,5) q'(3,4) by simp
  obtain q3 where
    q3: "queue_push (Some q2) (Some msg_late) = (0, Some q3)"
    "held q3 = held q2 @ [msg_late\<lparr>seq := next_seq q2\<rparr>]"
    "queue_inv q3" "count q3 = count q2 + 1" "capacity q3 = capacity q2"
    "next_seq q3 = next_seq q2 + 1"
    by (rule queue_push_step [OF q2(3) nf2, where m = msg_late])
  have h3: "held q3 = [msg_early\<lparr>seq := - 1\<rparr>, msg_late\<lparr>seq := 0\<rparr>]"
    using q3(2) q2(2,6) h' nx by simp
  have cnt: "Suc (Suc (ULONG_MAX - 1)) = ULONG_MAX + 1" by (simp add: ULONG_MAX_def)
  have run: "run_ops (q_fresh 2) late_ops = (q3, ULONG_MAX + 1, ULONG_MAX - 1)"
    using q'(1) q2(1) q3(1) cnt by (simp add: run_ops_def late_ops_def cycle_ops_def)
  then have ql: "q_late = q3" by (simp add: q_late_def)
  have ne3: "count q3 \<noteq> 0" using q3(4) q2(4) q'(3) by simp
  obtain r q4 where
    q4: "queue_pop (Some q3) (Some zero_msg) = (0, Some q4, Some (held q3 ! r))"
    "r < length (held q3)"
    "held q4 = take r (held q3) @ drop (Suc r) (held q3)"
    "queue_inv q4" "count q4 = count q3 - 1" "capacity q4 = capacity q3"
    "next_seq q4 = next_seq q3"
    "\<forall>j<length (held q3). beats (held q3 ! r) (held q3 ! j)"
    "\<forall>j<r. \<not> beats (held q3 ! j) (held q3 ! r)"
    by (rule queue_pop_step [OF q3(3) ne3, where old = zero_msg])
  have "r \<noteq> 0"
  proof
    assume "r = 0"
    with q4(8) h3 have "beats (msg_early\<lparr>seq := - 1\<rparr>) (msg_late\<lparr>seq := 0\<rparr>)"
      by (auto dest: spec [of _ 1])
    then show False by (simp add: beats_def msg_early_def msg_late_def pri_msg_def)
  qed
  with q4(2) h3 have r: "r = 1" by simp
  have pop1: "queue_pop (Some q3) (Some zero_msg) = (0, Some q4, Some (msg_late\<lparr>seq := 0\<rparr>))"
    using q4(1) r h3 by simp
  have h4: "held q4 = [msg_early\<lparr>seq := - 1\<rparr>]" using q4(3) r h3 by simp
  have ne4: "count q4 \<noteq> 0" using q4(5) q3(4) q2(4) q'(3) by simp
  obtain r' q5 where
    q5: "queue_pop (Some q4) (Some zero_msg) = (0, Some q5, Some (held q4 ! r'))"
    "r' < length (held q4)"
    "held q5 = take r' (held q4) @ drop (Suc r') (held q4)"
    "queue_inv q5" "count q5 = count q4 - 1" "capacity q5 = capacity q4"
    "next_seq q5 = next_seq q4"
    by (rule queue_pop_step [OF q4(4) ne4, where old = zero_msg])
  have pop2: "queue_pop (Some q4) (Some zero_msg) = (0, Some q5, Some (msg_early\<lparr>seq := - 1\<rparr>))"
    using q5(1,2) h4 by simp
  have c5: "count q5 = 0" using q5(5) q4(5) q3(4) q2(4) q'(3) by simp
  from q5(4) have "buf q5 \<noteq> None" by (auto simp: queue_inv_def split: option.splits)
  from queue_pop_empty [OF this c5, of zero_msg]
  have pop3: "queue_pop (Some q5) (Some zero_msg) = (- 2, Some q5, Some zero_msg)" .
  have dr: "drain 3 q3 = Some [msg_late\<lparr>seq := 0\<rparr>, msg_early\<lparr>seq := - 1\<rparr>]"
    using pop1 pop2 pop3 by (simp add: numeral_3_eq_3)
  have len: "length cycle_ops = (ULONG_MAX - 1) + (ULONG_MAX - 1)"
    by (simp add: cycle_ops_def length_cycles)
  have len': "length late_ops = (ULONG_MAX + 1) + (ULONG_MAX - 1)"
    by (simp add: late_ops_def len ULONG_MAX_def)
  have sq: "unat (seq (held q3 ! 0)) = ULONG_MAX" "unat (seq (held q3 ! 1)) = 0"
    unfolding h3 by (simp_all add: ULONG_MAX_def unsigned_minus_1_eq_mask mask_eq_exp_minus_1)
  have pri: "priority msg_early = priority msg_late"
    by (simp add: msg_early_def msg_late_def)
  have ord: "rev (held q3) \<noteq> held q3"
    unfolding h3 by (simp add: msg_early_def msg_late_def pri_msg_def)
  show ?thesis
    unfolding ql using init len len' cyc h' run h3 sq pri pop1 dr ord by simp
qed

text \<open>
  C6, as amended. Start from a queue fresh from \<open>queue_init\<close> with capacity \<open>C\<close> and
  issue any pushes and pops. The count is the number of pushes that succeeded minus the
  number of pops that succeeded, and lies in \<open>0 .. C\<close>. While fewer than
  \<open>ULONG_MAX\<close> pushes have succeeded, every held sequence number is below \<open>next_seq\<close>
  and the held sequence numbers are pairwise distinct.
\<close>

theorem run_ops_count_and_seqs:
  assumes "queue_init mem (Some q0) C = (0, Some q1)"
    and "run_ops q1 ops = (q, pushed, popped)"
  shows "count q = int pushed - int popped \<and> 0 \<le> count q \<and> count q \<le> C \<and>
         length (held q) = pushed - popped \<and>
         (pushed < ULONG_MAX \<longrightarrow>
            (\<forall>m \<in> set (held q). seq m < next_seq q) \<and> distinct (map seq (held q)))"
proof -
  have inv: "run_inv C (q, pushed, popped)"
    using run_inv_foldl [OF run_inv_init [OF assms(1)], of ops] assms(2)
    by (simp add: run_ops_def)
  then have q: "queue_inv q" "capacity q = C" "popped \<le> pushed"
    "count q = int pushed - int popped" "next_seq q = 1 + of_nat pushed"
    by (simp_all add: run_inv_def)
  from q(1) have rng: "0 \<le> count q" "count q \<le> capacity q"
    by (auto simp: queue_inv_def split: option.splits)
  have len: "length (held q) = pushed - popped"
    using held_length [OF q(1)] q(3,4) by simp
  have seqs: "(\<forall>m \<in> set (held q). seq m < next_seq q) \<and> distinct (map seq (held q))"
    if lt: "pushed < ULONG_MAX"
  proof -
    from lt have "pushed \<le> ULONG_MAX" by simp
    with inv have s: "sorted_wrt (\<lambda>a b. seq a < seq b) (held q)"
      and b: "\<forall>m \<in> set (held q). unat (seq m) \<le> pushed"
      by (simp_all add: run_inv_def)
    have "unat (next_seq q) = Suc pushed" using q(5) unat_next [OF lt] by simp
    with b have "\<forall>m \<in> set (held q). seq m < next_seq q"
      by (auto simp: word_less_nat_alt)
    with s show ?thesis by (simp add: sorted_seq_distinct)
  qed
  show ?thesis using q(2,4) rng len seqs by simp
qed

theorem run_ops_count_and_seqs_witness:
  "queue_init True (Some q_blank) 2 = (0, Some (q_fresh 2)) \<and>
   run_ops (q_fresh 2) [Push (pri_msg 1), Pop, Pop, Push (pri_msg 2), Push (pri_msg 3), Push (pri_msg 4)] =
     (\<lparr>buf = Some [(pri_msg 2)\<lparr>seq := 2\<rparr>, (pri_msg 3)\<lparr>seq := 3\<rparr>], capacity = 2, count = 2,
       next_seq = 4\<rparr>, 3, 1) \<and>
   (3::nat) < ULONG_MAX \<and>
   list_all (\<lambda>m. seq m < 4) [(pri_msg 2)\<lparr>seq := 2\<rparr>, (pri_msg 3)\<lparr>seq := 3\<rparr>] \<and>
   distinct (map seq [(pri_msg 2)\<lparr>seq := 2\<rparr>, (pri_msg 3)\<lparr>seq := 3\<rparr>])"
proof -
  let ?q = "\<lparr>buf = Some [(pri_msg 2)\<lparr>seq := 2\<rparr>, (pri_msg 3)\<lparr>seq := 3\<rparr>], capacity = 2, count = 2,
       next_seq = 4\<rparr>"
  have init: "queue_init True (Some q_blank) 2 = (0, Some (q_fresh 2))"
    by (simp add: queue_init_fresh)
  have run: "run_ops (q_fresh 2) [Push (pri_msg 1), Pop, Pop, Push (pri_msg 2), Push (pri_msg 3), Push (pri_msg 4)] =
     (?q, 3, 1)"
    by (simp add: run_ops_def q_fresh_def queue_push_def queue_pop_def queue_is_full_def
        queue_is_empty_def best_index_to_pop_def pri_msg_def zero_msg_def numeral_2_eq_2)
  have lt: "(3::nat) < ULONG_MAX" by (simp add: ULONG_MAX_def)
  have h: "held ?q = [(pri_msg 2)\<lparr>seq := 2\<rparr>, (pri_msg 3)\<lparr>seq := 3\<rparr>]"
    by (simp add: held_def)
  from run_ops_count_and_seqs [OF init run] lt h show ?thesis
    using init run by (simp add: list_all_iff)
qed

text \<open>
  C6 as stated, without the bound on the number of pushes, fails: \<open>next_seq\<close> is an
  \<open>unsigned long\<close> and \<open>next_seq++\<close> wraps around. On a fresh queue of capacity 1,
  after \<open>ULONG_MAX - 1\<close> rounds of push and pop and one more push, all of them
  successful, the held message has sequence number \<open>ULONG_MAX\<close> and \<open>next_seq\<close> is 0.
\<close>

theorem seq_wraps_after_ulong_max_pushes:
  "queue_init True (Some q_blank) 1 = (0, Some (q_fresh 1)) \<and>
   length wrap_ops = ULONG_MAX + (ULONG_MAX - 1) \<and>
   snd (run_ops (q_fresh 1) wrap_ops) = (ULONG_MAX, ULONG_MAX - 1) \<and>
   held (fst (run_ops (q_fresh 1) wrap_ops)) = [zero_msg\<lparr>seq := - 1\<rparr>] \<and>
   next_seq (fst (run_ops (q_fresh 1) wrap_ops)) = 0 \<and>
   \<not> seq (hd (held (fst (run_ops (q_fresh 1) wrap_ops)))) <
       next_seq (fst (run_ops (q_fresh 1) wrap_ops))"
proof -
  have init: "queue_init True (Some q_blank) 1 = (0, Some (q_fresh 1))"
    by (simp add: queue_init_fresh)
  from queue_init_success [OF init] have f: "queue_inv (q_fresh 1)" "count (q_fresh 1) = 0"
    "capacity (q_fresh 1) = 1" "next_seq (q_fresh 1) = 1" by simp_all
  from push_pop_cycles [OF f(1,2), of 0 0 "ULONG_MAX - 1" zero_msg] obtain q' where
    q': "foldl do_op (q_fresh 1, 0, 0) (concat (replicate (ULONG_MAX - 1) [Push zero_msg, Pop])) =
           (q', ULONG_MAX - 1, ULONG_MAX - 1)"
    "queue_inv q'" "count q' = 0" "capacity q' = 1"
    "next_seq q' = 1 + of_nat (ULONG_MAX - 1)"
    using f(3,4) by auto
  have nx: "next_seq q' = - 1" using q'(5) by (simp add: ULONG_MAX_def)
  have nf: "count q' < capacity q'" using q'(3,4) by simp
  obtain q2 where
    q2: "queue_push (Some q') (Some zero_msg) = (0, Some q2)"
    "held q2 = held q' @ [zero_msg\<lparr>seq := next_seq q'\<rparr>]"
    "queue_inv q2" "count q2 = count q' + 1" "capacity q2 = capacity q'"
    "next_seq q2 = next_seq q' + 1"
    by (rule queue_push_step [OF q'(2) nf, where m = zero_msg])
  have h': "held q' = []" using held_length [OF q'(2)] q'(3) by simp
  have pos: "Suc (ULONG_MAX - 1) = ULONG_MAX" by (simp add: ULONG_MAX_def)
  have run: "run_ops (q_fresh 1) wrap_ops = (q2, ULONG_MAX, ULONG_MAX - 1)"
    using q'(1) q2(1) pos by (simp add: run_ops_def wrap_ops_def)
  have "held q2 = [zero_msg\<lparr>seq := - 1\<rparr>]" using q2(2) h' nx by simp
  moreover have "next_seq q2 = 0" using q2(6) nx by simp
  moreover have "length wrap_ops = ULONG_MAX + (ULONG_MAX - 1)"
    by (simp add: wrap_ops_def length_cycles ULONG_MAX_def)
  ultimately show ?thesis using init run by simp
qed

section \<open>Semaphore waits and the deadline\<close>

lemma sem_wait_retry_cases:
  "sem_wait_retry evs v = Some (rc, v') \<Longrightarrow>
   (rc = 0 \<and> 0 < v \<and> v' = v - 1) \<or> (rc = - 1 \<and> v' = v)"
proof (induction evs arbitrary: v)
  case Nil
  then show ?case by simp
next
  case (Cons ev evs)
  then show ?case
    by (cases ev) (auto simp: sem_wait_def split: if_splits)
qed

lemma sem_timedwait_loop_cases:
  "sem_timedwait_loop evs ts v = Some (r, v') \<Longrightarrow>
   (r = Sem_acquired \<and> 0 < v \<and> v' = v - 1) \<or>
   (\<exists>e. r = Sem_failed e \<and> e \<noteq> EINTR \<and> v' = v)"
proof (induction evs arbitrary: v)
  case Nil
  then show ?case by simp
next
  case (Cons ev evs)
  then show ?case
    by (cases ev) (auto simp: sem_timedwait_def sem_wait_def split: if_splits)
qed

lemma sem_timedwait_retry_cases:
  assumes "sem_timedwait_retry clock evs ms v = Some (rc, v')"
  shows "(rc = 0 \<and> 0 < v \<and> v' = v - 1) \<or> ((rc = 1 \<or> rc = - 1 \<or> rc = - 2) \<and> v' = v)"
proof (cases clock)
  case None
  with assms show ?thesis by (simp add: sem_timedwait_retry_def)
next
  case (Some now)
  with assms obtain r where
    l: "sem_timedwait_loop evs (add_ms_to_timespec now ms) v = Some (r, v')"
    and rc: "rc = (if rc_of r = 0 then 0 else if r = Sem_failed ETIMEDOUT then 1 else - 1)"
    by (auto simp: sem_timedwait_retry_def split: option.splits if_splits)
  from sem_timedwait_loop_cases [OF l] rc show ?thesis by auto
qed

lemma c_div_nonneg: "0 \<le> a \<Longrightarrow> c_div a 1000 = a div 1000"
  by (cases "a = 0") (simp_all add: c_div_def)

lemma c_mod_nonneg: "0 \<le> a \<Longrightarrow> c_mod a 1000 = a mod 1000"
  by (simp add: c_mod_def c_div_nonneg minus_mult_div_eq_mod)

lemma add_ms_total: "ts_to_ns (add_ms_to_timespec ts ms) = ts_to_ns ts + ms * 1000000"
  by (simp add: add_ms_to_timespec_def ts_to_ns_def Let_def c_mod_def algebra_simps)

lemma add_ms_normalized:
  assumes "ts_normalized ts" "0 \<le> ms"
  shows "ts_normalized (add_ms_to_timespec ts ms)"
proof -
  define k where "k = c_mod ms 1000 * 1000000"
  have "0 \<le> ms mod 1000" "ms mod 1000 < 1000" by simp_all
  then have k: "0 \<le> k" "k < 1000000000"
    using assms(2) by (simp_all add: k_def c_mod_nonneg)
  have "tv_nsec (add_ms_to_timespec ts ms) =
      (if tv_nsec ts + k \<ge> 1000000000 then tv_nsec ts + k - 1000000000 else tv_nsec ts + k)"
    by (simp add: add_ms_to_timespec_def Let_def k_def)
  with k assms(1) show ?thesis
    by (auto simp: ts_normalized_def)
qed

lemmas demo_defs =
  b_one_def b_drained_def b_fresh_def s_fresh_def q_fresh_def b_blank_def q_blank_def env_ok_def
  t0_def r_timeout_def r_entry_def r_token_def r_lock_def r_go_def pri_msg_def zero_msg_def

lemmas eval_defs =
  buffer_put_def buffer_get_def buffer_put_interruptible_def buffer_get_interruptible_def
  sync_wait_slots_def sync_wait_items_def sync_timedwait_slots_def sync_timedwait_items_def
  sem_timedwait_retry_def sem_timedwait_def sem_wait_def sync_lock_def pthread_mutex_lock_def
  add_ms_to_timespec_def c_div_def c_mod_def ts_normalized_def s_ptr_def q_ptr_def
  queue_push_def queue_pop_def queue_is_full_def queue_is_empty_def best_index_to_pop_def
  sync_unlock_def pthread_mutex_unlock_def sync_post_items_def sync_post_slots_def sem_post_def
  Let_def

lemma sem_timedwait_loop_skip:
  "0 < v \<or> ts_normalized ts \<Longrightarrow>
   sem_timedwait_loop (replicate k (Ev_fail EINTR) @ evs) ts v = sem_timedwait_loop evs ts v"
  by (induction k) (auto simp: sem_timedwait_def sem_wait_def)

lemma sem_timedwait_loop_acquire:
  "0 < v \<Longrightarrow>
   sem_timedwait_loop (replicate k (Ev_fail EINTR) @ Ev_acquire # rest) ts v =
     Some (Sem_acquired, v - 1)"
  by (simp add: sem_timedwait_loop_skip sem_timedwait_def sem_wait_def)

lemma sem_timedwait_loop_fail:
  "0 < v \<or> ts_normalized ts \<Longrightarrow> err \<noteq> EINTR \<Longrightarrow>
   sem_timedwait_loop (replicate k (Ev_fail EINTR) @ Ev_fail err # rest) ts v =
     Some (Sem_failed err, v)"
  by (auto simp: sem_timedwait_loop_skip sem_timedwait_def sem_wait_def)

lemma sem_timedwait_loop_einval:
  "v = 0 \<Longrightarrow> \<not> ts_normalized ts \<Longrightarrow> evs \<noteq> [] \<Longrightarrow>
   sem_timedwait_loop evs ts v = Some (Sem_failed EINVAL, v)"
  by (cases evs) (simp_all add: sem_timedwait_def)

lemma sem_timedwait_loop_interrupted:
  "0 < v \<or> ts_normalized ts \<Longrightarrow> sem_timedwait_loop (replicate k (Ev_fail EINTR)) ts v = None"
  using sem_timedwait_loop_skip [of v ts k "[]"] by simp

lemma sem_timedwait_loop_blocked:
  "v = 0 \<Longrightarrow> ts_normalized ts \<Longrightarrow>
   sem_timedwait_loop (replicate k (Ev_fail EINTR) @ Ev_acquire # rest) ts v = None"
  by (simp add: sem_timedwait_loop_skip sem_timedwait_def sem_wait_def)

lemmas timedwait_defs = sync_timedwait_items_def sync_timedwait_slots_def sem_timedwait_retry_def

text \<open>
  C9. \<open>sync_timedwait_items\<close> and \<open>sync_timedwait_slots\<close> return 0 when the semaphore
  was acquired (its count is then one less), 1 when the last \<open>sem_timedwait\<close> failed with
  \<open>ETIMEDOUT\<close>, and a negative value on any other failure (-1 for a null pointer or
  another error, -2 when the clock cannot be read); in the last two cases the count is
  unchanged. The deadline handed to \<open>sem_timedwait\<close> is the clock reading plus exactly
  \<open>timeout_ms\<close> milliseconds, and it is normalized when the clock reading is and
  \<open>timeout_ms \<ge> 0\<close>.
  What each of the two functions returns, for every state, timeout and course of events:
  each is the loop of \<open>sem_timedwait\<close> calls on its own semaphore with the deadline
  \<open>add_ms_to_timespec now timeout_ms\<close>, and its result is that of the first call that
  is not interrupted by a signal. When a token is there and the wait goes through, 0 and
  one token less; when that call fails with \<open>ETIMEDOUT\<close>, 1; when it fails with another
  error, -1; when there is no token and the deadline is not normalized, -1 at the first
  call (\<open>EINVAL\<close>). The call does not return while every \<open>sem_timedwait\<close> is
  interrupted, or while there is no token and neither a timeout nor an error occurs.
\<close>

theorem timedwait_outcomes_and_deadline:
  "sync_timedwait_items clock evs None ms = Some (- 1, None) \<and>
   sync_timedwait_slots clock evs None ms = Some (- 1, None) \<and>
   (\<forall>rc s'. sync_timedwait_items clock evs (Some s) ms = Some (rc, s') \<longrightarrow>
      (rc = 0 \<and> 0 < items s \<and> s' = Some (s\<lparr>items := items s - 1\<rparr>)) \<or>
      ((rc = 1 \<or> rc = - 1 \<or> rc = - 2) \<and> s' = Some s)) \<and>
   (\<forall>rc s'. sync_timedwait_slots clock evs (Some s) ms = Some (rc, s') \<longrightarrow>
      (rc = 0 \<and> 0 < slots s \<and> s' = Some (s\<lparr>slots := slots s - 1\<rparr>)) \<or>
      ((rc = 1 \<or> rc = - 1 \<or> rc = - 2) \<and> s' = Some s)) \<and>
   sem_timedwait_retry None evs ms v = Some (- 2, v) \<and>
   sem_timedwait_retry (Some now) evs ms v =
     (case sem_timedwait_loop evs (add_ms_to_timespec now ms) v of
        None \<Rightarrow> None
      | Some (Sem_acquired, v') \<Rightarrow> Some (0, v')
      | Some (Sem_failed e, v') \<Rightarrow> Some (if e = ETIMEDOUT then 1 else - 1, v')) \<and>
   ts_to_ns (add_ms_to_timespec now ms) = ts_to_ns now + ms * 1000000 \<and>
   (ts_normalized now \<and> 0 \<le> ms \<longrightarrow> ts_normalized (add_ms_to_timespec now ms)) \<and>
   sync_timedwait_items None evs (Some s) ms = Some (- 2, Some s) \<and>
   sync_timedwait_slots None evs (Some s) ms = Some (- 2, Some s) \<and>
   sync_timedwait_items (Some now) evs (Some s) ms =
     (case sem_timedwait_loop evs (add_ms_to_timespec now ms) (items s) of
        None \<Rightarrow> None
      | Some (Sem_acquired, v') \<Rightarrow> Some (0, Some (s\<lparr>items := v'\<rparr>))
      | Some (Sem_failed e, v') \<Rightarrow>
          Some (if e = ETIMEDOUT then 1 else - 1, Some (s\<lparr>items := v'\<rparr>))) \<and>
   sync_timedwait_slots (Some now) evs (Some s) ms =
     (case sem_timedwait_loop evs (add_ms_to_timespec now ms) (slots s) of
        None \<Rightarrow> None
      | Some (Sem_acquired, v') \<Rightarrow> Some (0, Some (s\<lparr>slots := v'\<rparr>))
      | Some (Sem_failed e, v') \<Rightarrow>
          Some (if e = ETIMEDOUT then 1 else - 1, Some (s\<lparr>slots := v'\<rparr>))) \<and>
   (0 < items s \<longrightarrow>
      sync_timedwait_items (Some now) (replicate k (Ev_fail EINTR) @ Ev_acquire # rest) (Some s) ms =
        Some (0, Some (s\<lparr>items := items s - 1\<rparr>))) \<and>
   (0 < slots s \<longrightarrow>
      sync_timedwait_slots (Some now) (replicate k (Ev_fail EINTR) @ Ev_acquire # rest) (Some s) ms =
        Some (0, Some (s\<lparr>slots := slots s - 1\<rparr>))) \<and>
   ((0 < items s \<or> ts_normalized (add_ms_to_timespec now ms)) \<and> err \<noteq> EINTR \<longrightarrow>
      sync_timedwait_items (Some now) (replicate k (Ev_fail EINTR) @ Ev_fail err # rest) (Some s) ms =
        Some (if err = ETIMEDOUT then 1 else - 1, Some s)) \<and>
   ((0 < slots s \<or> ts_normalized (add_ms_to_timespec now ms)) \<and> err \<noteq> EINTR \<longrightarrow>
      sync_timedwait_slots (Some now) (replicate k (Ev_fail EINTR) @ Ev_fail err # rest) (Some s) ms =
        Some (if err = ETIMEDOUT then 1 else - 1, Some s)) \<and>
   (items s = 0 \<and> \<not> ts_normalized (add_ms_to_timespec now ms) \<and> evs \<noteq> [] \<longrightarrow>
      sync_timedwait_items (Some now) evs (Some s) ms = Some (- 1, Some s)) \<and>
   (slots s = 0 \<and> \<not> ts_normalized (add_ms_to_timespec now ms) \<and> evs \<noteq> [] \<longrightarrow>
      sync_timedwait_slots (Some now) evs (Some s) ms = Some (- 1, Some s)) \<and>
   (0 < items s \<or> ts_normalized (add_ms_to_timespec now ms) \<longrightarrow>
      sync_timedwait_items (Some now) (replicate k (Ev_fail EINTR)) (Some s) ms = None) \<and>
   (0 < slots s \<or> ts_normalized (add_ms_to_timespec now ms) \<longrightarrow>
      sync_timedwait_slots (Some now) (replicate k (Ev_fail EINTR)) (Some s) ms = None) \<and>
   (items s = 0 \<and> ts_normalized (add_ms_to_timespec now ms) \<longrightarrow>
      sync_timedwait_items (Some now) (replicate k (Ev_fail EINTR) @ Ev_acquire # rest) (Some s) ms =
        None) \<and>
   (slots s = 0 \<and> ts_normalized (add_ms_to_timespec now ms) \<longrightarrow>
      sync_timedwait_slots (Some now) (replicate k (Ev_fail EINTR) @ Ev_acquire # rest) (Some s) ms =
        None)"
proof -
  let ?d = "add_ms_to_timespec now ms"
  let ?pre = "replicate k (Ev_fail EINTR)"
  have 1: "sync_timedwait_items clock evs None ms = Some (- 1, None)"
    by (simp add: sync_timedwait_items_def)
  have 2: "sync_timedwait_slots clock evs None ms = Some (- 1, None)"
    by (simp add: sync_timedwait_slots_def)
  have 3: "\<forall>rc s'. sync_timedwait_items clock evs (Some s) ms = Some (rc, s') \<longrightarrow>
      (rc = 0 \<and> 0 < items s \<and> s' = Some (s\<lparr>items := items s - 1\<rparr>)) \<or>
      ((rc = 1 \<or> rc = - 1 \<or> rc = - 2) \<and> s' = Some s)"
    by (auto simp: sync_timedwait_items_def split: option.splits
        dest!: sem_timedwait_retry_cases)
  have 4: "\<forall>rc s'. sync_timedwait_slots clock evs (Some s) ms = Some (rc, s') \<longrightarrow>
      (rc = 0 \<and> 0 < slots s \<and> s' = Some (s\<lparr>slots := slots s - 1\<rparr>)) \<or>
      ((rc = 1 \<or> rc = - 1 \<or> rc = - 2) \<and> s' = Some s)"
    by (auto simp: sync_timedwait_slots_def split: option.splits
        dest!: sem_timedwait_retry_cases)
  have 5: "sem_timedwait_retry None evs ms v = Some (- 2, v)"
    by (simp add: sem_timedwait_retry_def)
  have 6: "sem_timedwait_retry (Some now) evs ms v =
     (case sem_timedwait_loop evs ?d v of
        None \<Rightarrow> None
      | Some (Sem_acquired, v') \<Rightarrow> Some (0, v')
      | Some (Sem_failed e, v') \<Rightarrow> Some (if e = ETIMEDOUT then 1 else - 1, v'))"
    by (simp add: sem_timedwait_retry_def split: option.splits sem_rc.splits)
  have 7: "ts_to_ns ?d = ts_to_ns now + ms * 1000000"
    by (rule add_ms_total)
  have 8: "ts_normalized now \<and> 0 \<le> ms \<longrightarrow> ts_normalized ?d"
    by (simp add: add_ms_normalized)
  have 9: "sync_timedwait_items None evs (Some s) ms = Some (- 2, Some s)"
    by (simp add: timedwait_defs)
  have 10: "sync_timedwait_slots None evs (Some s) ms = Some (- 2, Some s)"
    by (simp add: timedwait_defs)
  have 11: "sync_timedwait_items (Some now) evs (Some s) ms =
     (case sem_timedwait_loop evs ?d (items s) of
        None \<Rightarrow> None
      | Some (Sem_acquired, v') \<Rightarrow> Some (0, Some (s\<lparr>items := v'\<rparr>))
      | Some (Sem_failed e, v') \<Rightarrow>
          Some (if e = ETIMEDOUT then 1 else - 1, Some (s\<lparr>items := v'\<rparr>)))"
    by (simp add: timedwait_defs split: option.splits sem_rc.splits)
  have 12: "sync_timedwait_slots (Some now) evs (Some s) ms =
     (case sem_timedwait_loop evs ?d (slots s) of
        None \<Rightarrow> None
      | Some (Sem_acquired, v') \<Rightarrow> Some (0, Some (s\<lparr>slots := v'\<rparr>))
      | Some (Sem_failed e, v') \<Rightarrow>
          Some (if e = ETIMEDOUT then 1 else - 1, Some (s\<lparr>slots := v'\<rparr>)))"
    by (simp add: timedwait_defs split: option.splits sem_rc.splits)
  have 13: "0 < items s \<longrightarrow>
      sync_timedwait_items (Some now) (?pre @ Ev_acquire # rest) (Some s) ms =
        Some (0, Some (s\<lparr>items := items s - 1\<rparr>))"
    by (simp add: timedwait_defs sem_timedwait_loop_acquire)
  have 14: "0 < slots s \<longrightarrow>
      sync_timedwait_slots (Some now) (?pre @ Ev_acquire # rest) (Some s) ms =
        Some (0, Some (s\<lparr>slots := slots s - 1\<rparr>))"
    by (simp add: timedwait_defs sem_timedwait_loop_acquire)
  have 15: "(0 < items s \<or> ts_normalized ?d) \<and> err \<noteq> EINTR \<longrightarrow>
      sync_timedwait_items (Some now) (?pre @ Ev_fail err # rest) (Some s) ms =
        Some (if err = ETIMEDOUT then 1 else - 1, Some s)"
    by (simp add: timedwait_defs sem_timedwait_loop_fail)
  have 16: "(0 < slots s \<or> ts_normalized ?d) \<and> err \<noteq> EINTR \<longrightarrow>
      sync_timedwait_slots (Some now) (?pre @ Ev_fail err # rest) (Some s) ms =
        Some (if err = ETIMEDOUT then 1 else - 1, Some s)"
    by (simp add: timedwait_defs sem_timedwait_loop_fail)
  have 17: "items s = 0 \<and> \<not> ts_normalized ?d \<and> evs \<noteq> [] \<longrightarrow>
      sync_timedwait_items (Some now) evs (Some s) ms = Some (- 1, Some s)"
    by (simp add: timedwait_defs sem_timedwait_loop_einval)
  have 18: "slots s = 0 \<and> \<not> ts_normalized ?d \<and> evs \<noteq> [] \<longrightarrow>
      sync_timedwait_slots (Some now) evs (Some s) ms = Some (- 1, Some s)"
    by (simp add: timedwait_defs sem_timedwait_loop_einval)
  have 19: "0 < items s \<or> ts_normalized ?d \<longrightarrow>
      sync_timedwait_items (Some now) ?pre (Some s) ms = None"
    by (simp add: timedwait_defs sem_timedwait_loop_interrupted)
  have 20: "0 < slots s \<or> ts_normalized ?d \<longrightarrow>
      sync_timedwait_slots (Some now) ?pre (Some s) ms = None"
    by (simp add: timedwait_defs sem_timedwait_loop_interrupted)
  have 21: "items s = 0 \<and> ts_normalized ?d \<longrightarrow>
      sync_timedwait_items (Some now) (?pre @ Ev_acquire # rest) (Some s) ms = None"
    by (simp add: timedwait_defs sem_timedwait_loop_blocked)
  have 22: "slots s = 0 \<and> ts_normalized ?d \<longrightarrow>
      sync_timedwait_slots (Some now) (?pre @ Ev_acquire # rest) (Some s) ms = None"
    by (simp add: timedwait_defs sem_timedwait_loop_blocked)
  note all = 1 2 3 4 5 6 7 8 9 10 11 12 13 14 15 16 17 18 19 20 21 22
  show ?thesis by (intro conjI; fact all)
qed

theorem timedwait_outcomes_and_deadline_witness:
  "ts_normalized t0 \<and> (0::int) \<le> 150 \<and> ts_normalized (add_ms_to_timespec t0 150) \<and>
   add_ms_to_timespec t0 150 = \<lparr>tv_sec = 1700000001, tv_nsec = 149000000\<rparr> \<and>
   ts_to_ns (add_ms_to_timespec t0 150) = ts_to_ns t0 + 150 * 1000000 \<and>
   0 < items s_half \<and> 0 < slots s_half \<and>
   sync_timedwait_items (Some t0) [Ev_fail EINTR, Ev_acquire] (Some s_half) 150 =
     Some (0, Some (s_half\<lparr>items := 0\<rparr>)) \<and>
   sync_timedwait_slots (Some t0) [Ev_fail EINTR, Ev_acquire] (Some s_half) 150 =
     Some (0, Some (s_half\<lparr>slots := 0\<rparr>)) \<and>
   sync_timedwait_items (Some t0) [Ev_fail EINTR, Ev_fail ETIMEDOUT] (Some s_half) 150 =
     Some (1, Some s_half) \<and>
   sync_timedwait_slots (Some t0) [Ev_fail EINTR, Ev_fail ETIMEDOUT] (Some s_half) 150 =
     Some (1, Some s_half) \<and>
   sync_timedwait_items (Some t0) [Ev_fail EINTR, Ev_fail EOTHER] (Some s_half) 150 =
     Some (- 1, Some s_half) \<and>
   sync_timedwait_slots (Some t0) [Ev_fail EINTR, Ev_fail EOTHER] (Some s_half) 150 =
     Some (- 1, Some s_half) \<and>
   sync_timedwait_items None [] (Some s_half) 150 = Some (- 2, Some s_half) \<and>
   sync_timedwait_slots None [] (Some s_half) 150 = Some (- 2, Some s_half) \<and>
   sync_timedwait_items None [] None 150 = Some (- 1, None) \<and>
   sync_timedwait_slots None [] None 150 = Some (- 1, None) \<and>
   sync_timedwait_items (Some t0) [Ev_fail EINTR] (Some s_half) 150 = None \<and>
   sync_timedwait_slots (Some t0) [Ev_fail EINTR] (Some s_half) 150 = None \<and>
   items (s_fresh 2) = 0 \<and>
   sync_timedwait_items (Some t0) [Ev_fail EINTR, Ev_acquire] (Some (s_fresh 2)) 150 = None \<and>
   sync_timedwait_items (Some t0) [Ev_fail EINTR, Ev_fail ETIMEDOUT] (Some (s_fresh 2)) 150 =
     Some (1, Some (s_fresh 2)) \<and>
   add_ms_to_timespec t_edge (- 1) = \<lparr>tv_sec = 1700000000, tv_nsec = - 1000000\<rparr> \<and>
   tv_nsec (add_ms_to_timespec t_edge (- 1)) < 0 \<and>
   sync_timedwait_items (Some t_edge) [Ev_acquire] (Some (s_fresh 2)) (- 1) =
     Some (- 1, Some (s_fresh 2))"
proof -
  have n: "ts_normalized t0" by (simp add: ts_normalized_def t0_def)
  have d: "add_ms_to_timespec t0 150 = \<lparr>tv_sec = 1700000001, tv_nsec = 149000000\<rparr>"
    by (simp add: add_ms_to_timespec_def c_div_def c_mod_def t0_def Let_def)
  have d': "add_ms_to_timespec t_edge (- 1) = \<lparr>tv_sec = 1700000000, tv_nsec = - 1000000\<rparr>"
    by (simp add: add_ms_to_timespec_def c_div_def c_mod_def t_edge_def Let_def)
  have nd: "ts_normalized (add_ms_to_timespec t0 150)" by (simp add: d ts_normalized_def)
  have nd': "\<not> ts_normalized (add_ms_to_timespec t_edge (- 1))" by (simp add: d' ts_normalized_def)
  have s: "0 < items s_half" "0 < slots s_half" "items (s_fresh 2) = 0"
    "s_half\<lparr>items := items s_half - 1\<rparr> = s_half\<lparr>items := 0\<rparr>"
    "s_half\<lparr>slots := slots s_half - 1\<rparr> = s_half\<lparr>slots := 0\<rparr>"
    by (simp_all add: s_half_def s_fresh_def)
  have k: "replicate (Suc 0) (Ev_fail EINTR) = [Ev_fail EINTR]" by simp
  note a = timedwait_outcomes_and_deadline [where now = t0 and ms = 150 and s = s_half
      and k = "Suc 0" and rest = "[]" and err = ETIMEDOUT and evs = "[]" and clock = None]
  note b = timedwait_outcomes_and_deadline [where now = t0 and ms = 150 and s = s_half
      and k = "Suc 0" and rest = "[]" and err = EOTHER and evs = "[]" and clock = None]
  note c = timedwait_outcomes_and_deadline [where now = t0 and ms = 150 and s = "s_fresh 2"
      and k = "Suc 0" and rest = "[]" and err = ETIMEDOUT and evs = "[]" and clock = None]
  note e = timedwait_outcomes_and_deadline [where now = t_edge and ms = "- 1"
      and s = "s_fresh 2" and evs = "[Ev_acquire]", THEN conjunct2, THEN conjunct2,
      THEN conjunct2, THEN conjunct2, THEN conjunct2, THEN conjunct2, THEN conjunct2,
      THEN conjunct2, THEN conjunct2, THEN conjunct2, THEN conjunct2, THEN conjunct2,
      THEN conjunct2, THEN conjunct2, THEN conjunct2, THEN conjunct2, THEN conjunct1]
  from a b c e show ?thesis
    using n d d' nd nd' s by (simp add: k)
qed

section \<open>The buffer operations\<close>

lemma set_s_Some [simp]: "set_s b (Some ss) = b\<lparr>b_s := ss\<rparr>"
  by (simp add: set_s_def)

lemma set_q_Some [simp]: "set_q b (Some qq) = b\<lparr>b_q := qq\<rparr>"
  by (simp add: set_q_def)

lemma post_slots_s [simp]:
  "sync_post_slots (s_ptr b) = (0, Some ((b_s b)\<lparr>slots := Suc (slots (b_s b))\<rparr>))"
  by (simp add: sync_post_slots_def s_ptr_def sem_post_def)

lemma post_items_s [simp]:
  "sync_post_items (s_ptr b) = (0, Some ((b_s b)\<lparr>items := Suc (items (b_s b))\<rparr>))"
  by (simp add: sync_post_items_def s_ptr_def sem_post_def)

lemma unlock_s [simp]:
  "snd (sync_unlock (s_ptr b)) = Some ((b_s b)\<lparr>mtx := False\<rparr>)"
  by (simp add: sync_unlock_def s_ptr_def pthread_mutex_unlock_def)

lemma lock_s:
  "sync_lock e (s_ptr b) = Some (l, s2) \<Longrightarrow>
   (l \<noteq> 0 \<and> s2 = Some (b_s b)) \<or> (l = 0 \<and> \<not> mtx (b_s b) \<and> s2 = Some ((b_s b)\<lparr>mtx := True\<rparr>))"
  by (auto simp: sync_lock_def s_ptr_def pthread_mutex_lock_def split: if_splits)

lemma wait_slots_s:
  "sync_wait_slots evs (s_ptr b) = Some (w, s1) \<Longrightarrow>
   (w = 0 \<and> 0 < slots (b_s b) \<and> s1 = Some ((b_s b)\<lparr>slots := slots (b_s b) - 1\<rparr>)) \<or>
   (w = - 1 \<and> s1 = Some (b_s b))"
  by (auto simp: sync_wait_slots_def s_ptr_def split: option.splits
      dest!: sem_wait_retry_cases)

lemma wait_items_s:
  "sync_wait_items evs (s_ptr b) = Some (w, s1) \<Longrightarrow>
   (w = 0 \<and> 0 < items (b_s b) \<and> s1 = Some ((b_s b)\<lparr>items := items (b_s b) - 1\<rparr>)) \<or>
   (w = - 1 \<and> s1 = Some (b_s b))"
  by (auto simp: sync_wait_items_def s_ptr_def split: option.splits
      dest!: sem_wait_retry_cases)

lemma timedwait_slots_s:
  "sync_timedwait_slots clock evs (s_ptr b) ms = Some (w, s1) \<Longrightarrow>
   (w = 0 \<and> 0 < slots (b_s b) \<and> s1 = Some ((b_s b)\<lparr>slots := slots (b_s b) - 1\<rparr>)) \<or>
   ((w = 1 \<or> w = - 1 \<or> w = - 2) \<and> s1 = Some (b_s b))"
  by (auto simp: sync_timedwait_slots_def s_ptr_def split: option.splits
      dest!: sem_timedwait_retry_cases)

lemma timedwait_items_s:
  "sync_timedwait_items clock evs (s_ptr b) ms = Some (w, s1) \<Longrightarrow>
   (w = 0 \<and> 0 < items (b_s b) \<and> s1 = Some ((b_s b)\<lparr>items := items (b_s b) - 1\<rparr>)) \<or>
   ((w = 1 \<or> w = - 1 \<or> w = - 2) \<and> s1 = Some (b_s b))"
  by (auto simp: sync_timedwait_items_def s_ptr_def split: option.splits
      dest!: sem_timedwait_retry_cases)

lemma queue_push_fail_same:
  "queue_push q m = (rc, q') \<Longrightarrow> rc \<noteq> 0 \<Longrightarrow> q' = q"
  by (auto simp: queue_push_def Let_def split: option.splits if_splits)

lemma queue_pop_fail_same:
  "queue_pop q out = (rc, q', out') \<Longrightarrow> rc \<noteq> 0 \<Longrightarrow> q' = q \<and> out' = out"
  by (auto simp: queue_pop_def Let_def split: option.splits if_splits)

lemma queue_push_Some: "queue_push (Some q) m = (rc, q') \<Longrightarrow> \<exists>qq. q' = Some qq"
  by (auto simp: queue_push_def Let_def split: option.splits if_splits)

lemma queue_pop_Some:
  "queue_pop (Some q) (Some old) = (rc, q', out') \<Longrightarrow> \<exists>qq x. q' = Some qq \<and> out' = Some x"
  by (auto simp: queue_pop_def Let_def split: option.splits if_splits)

lemma mtx_idle: "\<not> mtx s \<Longrightarrow> s\<lparr>mtx := False\<rparr> = s"
  by simp

lemma buffer_put_cases:
  assumes "buffer_put env (Some b) (Some m) = Some (rc, b')"
  shows "((rc = - 2 \<or> rc = - 3) \<and> b' = Some b) \<or>
         (0 < slots (b_s b) \<and> \<not> mtx (b_s b) \<and>
          (\<exists>qrc q3. queue_push (Some (b_q b)) (Some m) = (qrc, Some q3) \<and>
             (if qrc \<noteq> 0 then rc = - 4 \<and> b' = Some b
              else rc = 0 \<and> b' = Some (put_done b q3))))"
proof -
  from assms obtain w s1 where
    w: "sync_wait_slots (wait_evs env) (s_ptr b) = Some (w, s1)"
    by (auto simp: buffer_put_def split: option.splits)
  show ?thesis
  proof (cases "w = 0")
    case False
    with wait_slots_s [OF w] have "s1 = Some (b_s b)" by auto
    with assms w False show ?thesis by (simp add: buffer_put_def)
  next
    case True
    with wait_slots_s [OF w] have pos: "0 < slots (b_s b)"
      and s1: "s1 = Some ((b_s b)\<lparr>slots := slots (b_s b) - 1\<rparr>)" by auto
    define b1 where "b1 = b\<lparr>b_s := (b_s b)\<lparr>slots := slots (b_s b) - 1\<rparr>\<rparr>"
    from assms w True s1 obtain l s2 where
      l: "sync_lock (lock_err env) (s_ptr b1) = Some (l, s2)"
      by (auto simp: buffer_put_def b1_def Let_def split: option.splits)
    show ?thesis
    proof (cases "l = 0")
      case False
      with lock_s [OF l] have "s2 = Some (b_s b1)" by auto
      with assms w True s1 l False pos show ?thesis
        by (simp add: buffer_put_def b1_def [symmetric] Let_def) (simp add: b1_def)
    next
      case l0: True
      with lock_s [OF l] have idle: "\<not> mtx (b_s b)"
        and s2: "s2 = Some ((b_s b1)\<lparr>mtx := True\<rparr>)" by (auto simp: b1_def)
      obtain qrc q3' where p: "queue_push (Some (b_q b)) (Some m) = (qrc, q3')"
        by (cases "queue_push (Some (b_q b)) (Some m)")
      from queue_push_Some [OF p] obtain q3 where q3: "q3' = Some q3" by blast
      show ?thesis
      proof (cases "qrc = 0")
        case False
        from queue_push_fail_same [OF p False] q3 have "q3 = b_q b" by simp
        with assms w True s1 l l0 s2 p q3 False pos idle show ?thesis
          by (simp add: buffer_put_def b1_def Let_def q_ptr_def mtx_idle)
      next
        case q0: True
        with assms w True s1 l l0 s2 p q3 pos idle show ?thesis
          by (simp add: buffer_put_def b1_def Let_def q_ptr_def put_done_def mtx_idle)
      qed
    qed
  qed
qed

lemma buffer_get_cases:
  assumes "buffer_get env (Some b) (Some old) = Some (rc, b', out')"
  shows "((rc = - 2 \<or> rc = - 3) \<and> b' = Some b \<and> out' = Some old) \<or>
         (0 < items (b_s b) \<and> \<not> mtx (b_s b) \<and>
          (\<exists>qrc q3 x. queue_pop (Some (b_q b)) (Some old) = (qrc, Some q3, Some x) \<and>
             out' = Some x \<and>
             (if qrc \<noteq> 0 then rc = - 4 \<and> b' = Some b \<and> x = old
              else rc = 0 \<and> b' = Some (get_done b q3))))"
proof -
  from assms obtain w s1 where
    w: "sync_wait_items (wait_evs env) (s_ptr b) = Some (w, s1)"
    by (auto simp: buffer_get_def split: option.splits)
  show ?thesis
  proof (cases "w = 0")
    case False
    with wait_items_s [OF w] have "s1 = Some (b_s b)" by auto
    with assms w False show ?thesis by (simp add: buffer_get_def)
  next
    case True
    with wait_items_s [OF w] have pos: "0 < items (b_s b)"
      and s1: "s1 = Some ((b_s b)\<lparr>items := items (b_s b) - 1\<rparr>)" by auto
    define b1 where "b1 = b\<lparr>b_s := (b_s b)\<lparr>items := items (b_s b) - 1\<rparr>\<rparr>"
    from assms w True s1 obtain l s2 where
      l: "sync_lock (lock_err env) (s_ptr b1) = Some (l, s2)"
      by (auto simp: buffer_get_def b1_def Let_def split: option.splits)
    show ?thesis
    proof (cases "l = 0")
      case False
      with lock_s [OF l] have "s2 = Some (b_s b1)" by auto
      with assms w True s1 l False pos show ?thesis
        by (simp add: buffer_get_def b1_def [symmetric] Let_def) (simp add: b1_def)
    next
      case l0: True
      with lock_s [OF l] have idle: "\<not> mtx (b_s b)"
        and s2: "s2 = Some ((b_s b1)\<lparr>mtx := True\<rparr>)" by (auto simp: b1_def)
      obtain qrc q3' x' where p: "queue_pop (Some (b_q b)) (Some old) = (qrc, q3', x')"
        by (cases "queue_pop (Some (b_q b)) (Some old)")
      from queue_pop_Some [OF p] obtain q3 x where q3: "q3' = Some q3" "x' = Some x" by blast
      with p have p': "queue_pop (Some (b_q b)) (Some old) = (qrc, Some q3, Some x)" by simp
      show ?thesis
      proof (cases "qrc = 0")
        case False
        from queue_pop_fail_same [OF p' False] have "q3 = b_q b" "x = old" by simp_all
        with w True s1 l l0 s2 p' False pos idle
        have "buffer_get env (Some b) (Some old) = Some (- 4, Some b, Some old)"
          by (simp add: buffer_get_def b1_def Let_def q_ptr_def mtx_idle)
        with assms p' False pos idle \<open>x = old\<close> show ?thesis by auto
      next
        case q0: True
        with w True s1 l l0 s2 p' pos idle
        have "buffer_get env (Some b) (Some old) = Some (0, Some (get_done b q3), Some x)"
          by (simp add: buffer_get_def b1_def Let_def q_ptr_def get_done_def mtx_idle)
        with assms p' q0 pos idle show ?thesis by auto
      qed
    qed
  qed
qed

lemma put_loop_cases:
  "put_loop rs poll b m = Some (rc, b') \<Longrightarrow>
   ((rc = 1 \<or> rc = - 2 \<or> rc = - 3) \<and> b' = b) \<or>
   (0 < slots (b_s b) \<and> \<not> mtx (b_s b) \<and>
    (\<exists>qrc q3. queue_push (Some (b_q b)) (Some m) = (qrc, Some q3) \<and>
       (if qrc \<noteq> 0 then rc = - 4 \<and> b' = b else rc = 0 \<and> b' = put_done b q3)))"
proof (induction rs)
  case Nil
  then show ?case by simp
next
  case (Cons r rs)
  note run = Cons.prems
  show ?case
  proof (cases "stop_at_entry r \<noteq> 0")
    case True
    with run show ?thesis by simp
  next
    case go: False
    with run obtain w s1 where
      w: "sync_timedwait_slots (clock_now r) (timed_evs r) (s_ptr b) poll = Some (w, s1)"
      by (auto split: option.splits)
    show ?thesis
    proof (cases "w = 0")
      case False
      with timedwait_slots_s [OF w] have s1: "s1 = Some (b_s b)"
        and wv: "w = 1 \<or> w = - 1 \<or> w = - 2" by auto
      show ?thesis
      proof (cases "w = 1")
        case True
        with run go w s1 have "put_loop rs poll b m = Some (rc, b')" by simp
        then show ?thesis by (rule Cons.IH)
      next
        case False
        with run go w s1 wv show ?thesis by auto
      qed
    next
      case True
      with timedwait_slots_s [OF w] have pos: "0 < slots (b_s b)"
        and s1: "s1 = Some ((b_s b)\<lparr>slots := slots (b_s b) - 1\<rparr>)" by auto
      define b1 where "b1 = b\<lparr>b_s := (b_s b)\<lparr>slots := slots (b_s b) - 1\<rparr>\<rparr>"
      show ?thesis
      proof (cases "stop_after_token r \<noteq> 0")
        case True
        with run go w \<open>w = 0\<close> s1 pos show ?thesis by simp
      next
        case tok: False
        with run go w \<open>w = 0\<close> s1 obtain l s2 where
          l: "sync_lock (lock_err_r r) (s_ptr b1) = Some (l, s2)"
          by (auto simp: b1_def Let_def split: option.splits)
        show ?thesis
        proof (cases "l = 0")
          case False
          with lock_s [OF l] have "s2 = Some (b_s b1)" by auto
          with run go w \<open>w = 0\<close> s1 tok l False pos show ?thesis
            by (simp add: b1_def [symmetric] Let_def) (simp add: b1_def)
        next
          case l0: True
          with lock_s [OF l] have idle: "\<not> mtx (b_s b)"
            and s2: "s2 = Some ((b_s b1)\<lparr>mtx := True\<rparr>)" by (auto simp: b1_def)
          show ?thesis
          proof (cases "stop_after_lock r \<noteq> 0")
            case True
            with run go w \<open>w = 0\<close> s1 tok l l0 s2 pos idle show ?thesis
              by (simp add: b1_def Let_def mtx_idle)
          next
            case lk: False
            obtain qrc q3' where p: "queue_push (Some (b_q b)) (Some m) = (qrc, q3')"
              by (cases "queue_push (Some (b_q b)) (Some m)")
            from queue_push_Some [OF p] obtain q3 where q3: "q3' = Some q3" by blast
            show ?thesis
            proof (cases "qrc = 0")
              case False
              from queue_push_fail_same [OF p False] q3 have "q3 = b_q b" by simp
              with run go w \<open>w = 0\<close> s1 tok l l0 s2 lk p q3 False pos idle show ?thesis
                by (simp add: b1_def Let_def q_ptr_def mtx_idle)
            next
              case q0: True
              with run go w \<open>w = 0\<close> s1 tok l l0 s2 lk p q3 pos idle show ?thesis
                by (simp add: b1_def Let_def q_ptr_def put_done_def mtx_idle)
            qed
          qed
        qed
      qed
    qed
  qed
qed

lemma get_loop_cases:
  "get_loop rs poll b old = Some (rc, b', out') \<Longrightarrow>
   ((rc = 1 \<or> rc = - 2 \<or> rc = - 3) \<and> b' = b \<and> out' = old) \<or>
   (0 < items (b_s b) \<and> \<not> mtx (b_s b) \<and>
    (\<exists>qrc q3 x. queue_pop (Some (b_q b)) (Some old) = (qrc, Some q3, Some x) \<and> out' = x \<and>
       (if qrc \<noteq> 0 then rc = - 4 \<and> b' = b \<and> x = old else rc = 0 \<and> b' = get_done b q3)))"
proof (induction rs)
  case Nil
  then show ?case by simp
next
  case (Cons r rs)
  note run = Cons.prems
  show ?case
  proof (cases "stop_at_entry r \<noteq> 0")
    case True
    with run show ?thesis by simp
  next
    case go: False
    with run obtain w s1 where
      w: "sync_timedwait_items (clock_now r) (timed_evs r) (s_ptr b) poll = Some (w, s1)"
      by (auto split: option.splits)
    show ?thesis
    proof (cases "w = 0")
      case False
      with timedwait_items_s [OF w] have s1: "s1 = Some (b_s b)"
        and wv: "w = 1 \<or> w = - 1 \<or> w = - 2" by auto
      show ?thesis
      proof (cases "w = 1")
        case True
        with run go w s1 have "get_loop rs poll b old = Some (rc, b', out')" by simp
        then show ?thesis by (rule Cons.IH)
      next
        case False
        with run go w s1 wv show ?thesis by auto
      qed
    next
      case True
      with timedwait_items_s [OF w] have pos: "0 < items (b_s b)"
        and s1: "s1 = Some ((b_s b)\<lparr>items := items (b_s b) - 1\<rparr>)" by auto
      define b1 where "b1 = b\<lparr>b_s := (b_s b)\<lparr>items := items (b_s b) - 1\<rparr>\<rparr>"
      show ?thesis
      proof (cases "stop_after_token r \<noteq> 0")
        case True
        with run go w \<open>w = 0\<close> s1 pos show ?thesis by simp
      next
        case tok: False
        with run go w \<open>w = 0\<close> s1 obtain l s2 where
          l: "sync_lock (lock_err_r r) (s_ptr b1) = Some (l, s2)"
          by (auto simp: b1_def Let_def split: option.splits)
        show ?thesis
        proof (cases "l = 0")
          case False
          with lock_s [OF l] have "s2 = Some (b_s b1)" by auto
          with run go w \<open>w = 0\<close> s1 tok l False pos show ?thesis
            by (simp add: b1_def [symmetric] Let_def) (simp add: b1_def)
        next
          case l0: True
          with lock_s [OF l] have idle: "\<not> mtx (b_s b)"
            and s2: "s2 = Some ((b_s b1)\<lparr>mtx := True\<rparr>)" by (auto simp: b1_def)
          show ?thesis
          proof (cases "stop_after_lock r \<noteq> 0")
            case True
            with run go w \<open>w = 0\<close> s1 tok l l0 s2 pos idle show ?thesis
              by (simp add: b1_def Let_def mtx_idle)
          next
            case lk: False
            obtain qrc q3' x' where p: "queue_pop (Some (b_q b)) (Some old) = (qrc, q3', x')"
              by (cases "queue_pop (Some (b_q b)) (Some old)")
            from queue_pop_Some [OF p] obtain q3 x where q3: "q3' = Some q3" "x' = Some x"
              by blast
            with p have p': "queue_pop (Some (b_q b)) (Some old) = (qrc, Some q3, Some x)"
              by simp
            show ?thesis
            proof (cases "qrc = 0")
              case False
              from queue_pop_fail_same [OF p' False] have "q3 = b_q b" "x = old" by simp_all
              with go w \<open>w = 0\<close> s1 tok l l0 s2 lk p' False pos idle
              have "get_loop (r # rs) poll b old = Some (- 4, b, old)"
                by (simp add: b1_def Let_def q_ptr_def mtx_idle)
              with run p' False pos idle \<open>x = old\<close> show ?thesis by auto
            next
              case q0: True
              with go w \<open>w = 0\<close> s1 tok l l0 s2 lk p' pos idle
              have "get_loop (r # rs) poll b old = Some (0, get_done b q3, x)"
                by (simp add: b1_def Let_def q_ptr_def get_done_def mtx_idle)
              with run p' q0 pos idle show ?thesis by auto
            qed
          qed
        qed
      qed
    qed
  qed
qed

lemma inv_put_done:
  assumes inv: "buffer_inv b" and pos: "0 < slots (b_s b)"
    and p: "queue_push (Some (b_q b)) (Some m) = (qrc, Some q3)"
  shows "qrc = 0 \<and> buffer_inv (put_done b q3)"
proof -
  from inv have qi: "queue_inv (b_q b)" and it: "int (items (b_s b)) = count (b_q b)"
    and sl: "int (slots (b_s b)) + int (items (b_s b)) = capacity (b_q b)"
    by (simp_all add: buffer_inv_def)
  from pos it sl have nf: "count (b_q b) < capacity (b_q b)" by simp
  obtain q' where
    q': "queue_push (Some (b_q b)) (Some m) = (0, Some q')"
    "held q' = held (b_q b) @ [m\<lparr>seq := next_seq (b_q b)\<rparr>]"
    "queue_inv q'" "count q' = count (b_q b) + 1" "capacity q' = capacity (b_q b)"
    "next_seq q' = next_seq (b_q b) + 1"
    by (rule queue_push_step [OF qi nf, where m = m])
  from p q'(1) have e: "qrc = 0" "q3 = q'" by simp_all
  have "buffer_inv (put_done b q')"
    using q'(3,4,5) it sl pos by (simp add: buffer_inv_def put_done_def)
  with e show ?thesis by simp
qed

lemma inv_get_done:
  assumes inv: "buffer_inv b" and pos: "0 < items (b_s b)"
    and p: "queue_pop (Some (b_q b)) (Some old) = (qrc, Some q3, Some x)"
  shows "qrc = 0 \<and> buffer_inv (get_done b q3)"
proof -
  from inv have qi: "queue_inv (b_q b)" and it: "int (items (b_s b)) = count (b_q b)"
    and sl: "int (slots (b_s b)) + int (items (b_s b)) = capacity (b_q b)"
    by (simp_all add: buffer_inv_def)
  from pos it have ne: "count (b_q b) \<noteq> 0" by simp
  obtain r q' where
    q': "queue_pop (Some (b_q b)) (Some old) = (0, Some q', Some (held (b_q b) ! r))"
    "r < length (held (b_q b))"
    "held q' = take r (held (b_q b)) @ drop (Suc r) (held (b_q b))"
    "queue_inv q'" "count q' = count (b_q b) - 1" "capacity q' = capacity (b_q b)"
    by (rule queue_pop_step [OF qi ne, where old = old])
  from p q'(1) have e: "qrc = 0" "q3 = q'" by simp_all
  have "buffer_inv (get_done b q')"
    using q'(4,5,6) it sl pos by (simp add: buffer_inv_def get_done_def)
  with e show ?thesis by simp
qed

lemma buffer_put_ok_chain:
  assumes "buffer_put env (Some b) (Some m) = Some (0, b')"
  shows "\<exists>s1 s2 q3.
           sync_wait_slots (wait_evs env) (Some (b_s b)) = Some (0, Some s1) \<and>
           sync_lock (lock_err env) (Some s1) = Some (0, Some s2) \<and>
           slots s2 = slots (b_s b) - 1 \<and> items s2 = items (b_s b) \<and> mtx s2 \<and>
           queue_push (Some (b_q b)) (Some m) = (0, Some q3) \<and>
           b' = Some \<lparr>b_q = q3, b_s = s2\<lparr>mtx := False, items := Suc (items s2)\<rparr>\<rparr>"
proof -
  from assms obtain w s1' where
    w: "sync_wait_slots (wait_evs env) (s_ptr b) = Some (w, s1')"
    by (auto simp: buffer_put_def split: option.splits)
  from assms w have w0: "w = 0"
    by (auto simp: buffer_put_def Let_def split: if_splits option.splits prod.splits)
  with wait_slots_s [OF w] have s1: "s1' = Some ((b_s b)\<lparr>slots := slots (b_s b) - 1\<rparr>)"
    by auto
  define s1 where "s1 = (b_s b)\<lparr>slots := slots (b_s b) - 1\<rparr>"
  define b1 where "b1 = b\<lparr>b_s := s1\<rparr>"
  from assms w w0 s1 obtain l s2' where
    l: "sync_lock (lock_err env) (s_ptr b1) = Some (l, s2')"
    by (auto simp: buffer_put_def b1_def s1_def Let_def split: option.splits)
  from assms w w0 s1 l have l0: "l = 0"
    by (auto simp: buffer_put_def b1_def s1_def Let_def split: if_splits option.splits prod.splits)
  with lock_s [OF l] have s2: "s2' = Some (s1\<lparr>mtx := True\<rparr>)" by (auto simp: b1_def)
  define s2 where "s2 = s1\<lparr>mtx := True\<rparr>"
  obtain qrc q3' where p: "queue_push (Some (b_q b)) (Some m) = (qrc, q3')"
    by (cases "queue_push (Some (b_q b)) (Some m)")
  from queue_push_Some [OF p] obtain q3 where q3: "q3' = Some q3" by blast
  from assms w w0 s1 l l0 s2 p q3 have q0: "qrc = 0"
    by (auto simp: buffer_put_def b1_def s1_def Let_def q_ptr_def split: if_splits)
  from assms w w0 s1 l l0 s2 p q3 q0
  have fin: "b' = Some \<lparr>b_q = q3, b_s = s2\<lparr>mtx := False, items := Suc (items s2)\<rparr>\<rparr>"
    by (cases b) (auto simp: buffer_put_def b1_def s1_def s2_def Let_def q_ptr_def)
  have "sync_wait_slots (wait_evs env) (Some (b_s b)) = Some (0, Some s1)"
    using w w0 s1 by (simp add: s_ptr_def s1_def)
  moreover have "sync_lock (lock_err env) (Some s1) = Some (0, Some s2)"
    using l l0 s2 by (simp add: s_ptr_def b1_def s2_def)
  moreover have "slots s2 = slots (b_s b) - 1 \<and> items s2 = items (b_s b) \<and> mtx s2"
    by (simp add: s2_def s1_def)
  ultimately show ?thesis using p q3 q0 fin by blast
qed

lemma buffer_get_ok_chain:
  assumes "buffer_get env (Some b) (Some old) = Some (0, b', out')"
  shows "\<exists>s1 s2 q3 x.
           sync_wait_items (wait_evs env) (Some (b_s b)) = Some (0, Some s1) \<and>
           sync_lock (lock_err env) (Some s1) = Some (0, Some s2) \<and>
           items s2 = items (b_s b) - 1 \<and> slots s2 = slots (b_s b) \<and> mtx s2 \<and>
           queue_pop (Some (b_q b)) (Some old) = (0, Some q3, Some x) \<and> out' = Some x \<and>
           b' = Some \<lparr>b_q = q3, b_s = s2\<lparr>mtx := False, slots := Suc (slots s2)\<rparr>\<rparr>"
proof -
  from assms obtain w s1' where
    w: "sync_wait_items (wait_evs env) (s_ptr b) = Some (w, s1')"
    by (auto simp: buffer_get_def split: option.splits)
  from assms w have w0: "w = 0"
    by (auto simp: buffer_get_def Let_def split: if_splits option.splits prod.splits)
  with wait_items_s [OF w] have s1: "s1' = Some ((b_s b)\<lparr>items := items (b_s b) - 1\<rparr>)"
    by auto
  define s1 where "s1 = (b_s b)\<lparr>items := items (b_s b) - 1\<rparr>"
  define b1 where "b1 = b\<lparr>b_s := s1\<rparr>"
  from assms w w0 s1 obtain l s2' where
    l: "sync_lock (lock_err env) (s_ptr b1) = Some (l, s2')"
    by (auto simp: buffer_get_def b1_def s1_def Let_def split: option.splits)
  from assms w w0 s1 l have l0: "l = 0"
    by (auto simp: buffer_get_def b1_def s1_def Let_def split: if_splits option.splits prod.splits)
  with lock_s [OF l] have s2: "s2' = Some (s1\<lparr>mtx := True\<rparr>)" by (auto simp: b1_def)
  define s2 where "s2 = s1\<lparr>mtx := True\<rparr>"
  obtain qrc q3' x' where p: "queue_pop (Some (b_q b)) (Some old) = (qrc, q3', x')"
    by (cases "queue_pop (Some (b_q b)) (Some old)")
  from queue_pop_Some [OF p] obtain q3 x where q3: "q3' = Some q3" "x' = Some x" by blast
  with p have p': "queue_pop (Some (b_q b)) (Some old) = (qrc, Some q3, Some x)" by simp
  have val: "buffer_get env (Some b) (Some old) =
      (if qrc \<noteq> 0
       then Some (- 4, Some (b\<lparr>b_q := q3, b_s := s2\<lparr>mtx := False, items := Suc (items s2)\<rparr>\<rparr>), Some x)
       else Some (0, Some (b\<lparr>b_q := q3, b_s := s2\<lparr>mtx := False, slots := Suc (slots s2)\<rparr>\<rparr>), Some x))"
    using w w0 s1 l l0 s2 p'
    by (simp add: buffer_get_def b1_def s1_def s2_def Let_def q_ptr_def)
  from val assms have q0: "qrc = 0" by (auto split: if_splits)
  from val assms q0
  have fin: "b' = Some \<lparr>b_q = q3, b_s = s2\<lparr>mtx := False, slots := Suc (slots s2)\<rparr>\<rparr>"
    and ox: "out' = Some x"
    by (cases b, auto)+
  have "sync_wait_items (wait_evs env) (Some (b_s b)) = Some (0, Some s1)"
    using w w0 s1 by (simp add: s_ptr_def s1_def)
  moreover have "sync_lock (lock_err env) (Some s1) = Some (0, Some s2)"
    using l l0 s2 by (simp add: s_ptr_def b1_def s2_def)
  moreover have "items s2 = items (b_s b) - 1 \<and> slots s2 = slots (b_s b) \<and> mtx s2"
    by (simp add: s2_def s1_def)
  ultimately show ?thesis using p' q0 fin ox by blast
qed

lemma buffer_init_inv:
  "buffer_init mem senv (Some bz) cap = (0, Some b0) \<Longrightarrow>
   buffer_inv b0 \<and> capacity (b_q b0) = cap \<and> items (b_s b0) = 0 \<and> slots (b_s b0) = nat cap"
  by (cases senv)
    (auto simp: buffer_init_def queue_init_def calloc_msgs_def sync_init_def q_ptr_def
      s_ptr_def Let_def buffer_inv_def queue_inv_def
      split: if_splits option.splits prod.splits)

lemma buffer_init_queue_failure:
  "fst (queue_init mem (Some (b_q b)) cap) \<noteq> 0 \<Longrightarrow>
   \<exists>bb. buffer_init mem senv (Some b) cap = (- 2, Some bb) \<and> b_s bb = b_s b"
  by (auto simp: buffer_init_def queue_init_def calloc_msgs_def q_ptr_def Let_def
      split: if_splits option.splits prod.splits)

lemma buffer_inv_b_one: "buffer_inv b_one"
  by (simp add: buffer_inv_def queue_inv_def b_one_def)

lemma buffer_inv_b_fresh: "0 < C \<Longrightarrow> buffer_inv (b_fresh C)"
  by (simp add: buffer_inv_def queue_inv_def b_fresh_def q_fresh_def s_fresh_def)

lemma put_demo:
  "buffer_put env_ok (Some (b_fresh 2)) (Some (pri_msg 5)) = Some (0, Some b_one)"
  by (simp add: eval_defs demo_defs numeral_2_eq_2)

lemma get_demo:
  "buffer_get env_ok (Some b_one) (Some zero_msg) =
     Some (0, Some b_drained, Some ((pri_msg 5)\<lparr>seq := 1\<rparr>))"
  by (simp add: eval_defs demo_defs)

lemma put_i_demo:
  "buffer_put_interruptible (Some (b_fresh 2)) (Some (pri_msg 5)) (Some [r_timeout, r_go]) 150 =
     Some (0, Some b_one)"
  by (simp add: eval_defs demo_defs numeral_2_eq_2)

lemma get_i_demo:
  "buffer_get_interruptible (Some b_one) (Some zero_msg) (Some [r_timeout, r_go]) 150 =
     Some (0, Some b_drained, Some ((pri_msg 5)\<lparr>seq := 1\<rparr>))"
  by (simp add: eval_defs demo_defs)

lemma put_stopped_demo:
  "buffer_put_interruptible (Some b_one) (Some (pri_msg 9)) (Some [r_timeout, r_entry]) 150 =
     Some (1, Some b_one) \<and>
   buffer_put_interruptible (Some b_one) (Some (pri_msg 9)) (Some [r_token]) 150 =
     Some (1, Some b_one) \<and>
   buffer_put_interruptible (Some b_one) (Some (pri_msg 9)) (Some [r_lock]) 150 =
     Some (1, Some b_one)"
  by (simp add: eval_defs demo_defs)

lemma get_stopped_demo:
  "buffer_get_interruptible (Some b_one) (Some zero_msg) (Some [r_timeout, r_entry]) 150 =
     Some (1, Some b_one, Some zero_msg) \<and>
   buffer_get_interruptible (Some b_one) (Some zero_msg) (Some [r_token]) 150 =
     Some (1, Some b_one, Some zero_msg) \<and>
   buffer_get_interruptible (Some b_one) (Some zero_msg) (Some [r_lock]) 150 =
     Some (1, Some b_one, Some zero_msg)"
  by (simp add: eval_defs demo_defs)

subsection \<open>Interleavings\<close>

lemma thread_step_delta:
  assumes st: "thread_step e f pc b = Some (pc', b')"
    and qi: "queue_inv (b_q b)" and ok: "sound pc"
    and room: "slot_held pc = 1 \<longrightarrow> count (b_q b) < capacity (b_q b)"
    and some: "item_held pc = 1 \<longrightarrow> count (b_q b) \<noteq> 0"
    and held: "in_lock pc = 1 \<longrightarrow> mtx (b_s b)"
  shows "queue_inv (b_q b') \<and> sound pc' \<and> bal_items b' pc' = bal_items b pc \<and>
         bal_slots b' pc' = bal_slots b pc \<and> bal_lock b' pc' = bal_lock b pc"
proof (cases pc)
  case (Put_push m)
  from room Put_push have nf: "count (b_q b) < capacity (b_q b)" by simp
  obtain q' where
    q': "queue_push (Some (b_q b)) (Some m) = (0, Some q')"
    "held q' = held (b_q b) @ [m\<lparr>seq := next_seq (b_q b)\<rparr>]"
    "queue_inv q'" "count q' = count (b_q b) + 1" "capacity q' = capacity (b_q b)"
    by (rule queue_push_step [OF qi nf, where m = m])
  from st Put_push q'(1) have "pc' = Put_unlock 0" "b' = b\<lparr>b_q := q'\<rparr>"
    by (simp_all add: q_ptr_def)
  with Put_push q'(3,4,5) show ?thesis
    by (simp add: bal_items_def bal_slots_def bal_lock_def)
next
  case (Get_pop old)
  from some Get_pop have ne: "count (b_q b) \<noteq> 0" by simp
  obtain r q' where
    q': "queue_pop (Some (b_q b)) (Some old) = (0, Some q', Some (held (b_q b) ! r))"
    "r < length (held (b_q b))"
    "held q' = take r (held (b_q b)) @ drop (Suc r) (held (b_q b))"
    "queue_inv q'" "count q' = count (b_q b) - 1" "capacity q' = capacity (b_q b)"
    by (rule queue_pop_step [OF qi ne, where old = old])
  from st Get_pop q'(1) have "pc' = Get_unlock 0" "b' = b\<lparr>b_q := q'\<rparr>"
    by (simp_all add: q_ptr_def)
  with Get_pop q'(4,5,6) show ?thesis
    by (simp add: bal_items_def bal_slots_def bal_lock_def)
next
  case (Put_wait k m)
  with st qi show ?thesis
    by (cases k)
      (auto simp: bal_items_def bal_slots_def bal_lock_def split: option.splits if_splits
        dest!: wait_slots_s timedwait_slots_s)
next
  case (Get_wait k m)
  with st qi show ?thesis
    by (cases k)
      (auto simp: bal_items_def bal_slots_def bal_lock_def split: option.splits if_splits
        dest!: wait_items_s timedwait_items_s)
next
  case (Put_lock k m)
  with st qi show ?thesis
    by (cases k)
      (auto simp: bal_items_def bal_slots_def bal_lock_def split: option.splits if_splits
        dest!: lock_s)
next
  case (Get_lock k m)
  with st qi show ?thesis
    by (cases k)
      (auto simp: bal_items_def bal_slots_def bal_lock_def split: option.splits if_splits
        dest!: lock_s)
qed (use st qi ok held in \<open>auto simp: bal_items_def bal_slots_def bal_lock_def split: if_splits\<close>)

lemma tally_update:
  "i < length thr \<Longrightarrow> tally f (thr[i := x]) = tally f thr - f (thr ! i) + f x"
proof (induction thr arbitrary: i)
  case Nil
  then show ?case by simp
next
  case (Cons a thr)
  then show ?case by (cases i) (simp_all add: tally_def)
qed

lemma tally_nonneg: "(\<And>pc. 0 \<le> f pc) \<Longrightarrow> 0 \<le> tally f thr"
  by (induction thr) (simp_all add: tally_def)

lemma tally_member:
  "(\<And>pc. 0 \<le> f pc) \<Longrightarrow> i < length thr \<Longrightarrow> f (thr ! i) \<le> tally f thr"
proof (induction thr arbitrary: i)
  case Nil
  then show ?case by simp
next
  case (Cons a thr)
  have nn: "0 \<le> tally f thr" using Cons.prems(1) by (rule tally_nonneg)
  show ?case
  proof (cases i)
    case 0
    with nn show ?thesis by (simp add: tally_def)
  next
    case (Suc j)
    with Cons.prems have "f (thr ! j) \<le> tally f thr" by (intro Cons.IH) simp_all
    with Suc Cons.prems(1) [of a] show ?thesis by (simp add: tally_def)
  qed
qed

lemma slot_held_nonneg: "0 \<le> slot_held pc" by (cases pc) simp_all

lemma item_held_nonneg: "0 \<le> item_held pc" by (cases pc) simp_all

lemma pushed_unposted_nonneg: "0 \<le> pushed_unposted pc" by (cases pc) simp_all

lemma popped_unposted_nonneg: "0 \<le> popped_unposted pc" by (cases pc) simp_all

lemma in_lock_nonneg: "0 \<le> in_lock pc" by (cases pc) simp_all

lemma outside_call_nothing:
  "outside_call pc \<Longrightarrow>
   slot_held pc = 0 \<and> item_held pc = 0 \<and> pushed_unposted pc = 0 \<and> popped_unposted pc = 0 \<and>
   in_lock pc = 0"
  by (cases pc) simp_all

lemma entry_nothing:
  "slot_held (entry c) = 0 \<and> item_held (entry c) = 0 \<and> pushed_unposted (entry c) = 0 \<and>
   popped_unposted (entry c) = 0 \<and> in_lock (entry c) = 0 \<and> sound (entry c)"
  by (cases c rule: entry.cases) simp_all

lemma list_all_update: "list_all P xs \<Longrightarrow> P x \<Longrightarrow> list_all P (xs[i := x])"
  by (auto simp: list_all_iff dest!: set_update_subset_insert [THEN subsetD])

lemma world_inv_step:
  assumes inv: "world_inv w" and st: "world_step a w = Some w'"
  shows "world_inv w'"
proof (cases a)
  case Set_stop
  with inv st show ?thesis by (auto simp: world_inv_def Let_def)
next
  case (Call i c)
  with st have i: "i < length (w_thr w)" and out: "outside_call (w_thr w ! i)"
    and w': "w' = w\<lparr>w_thr := (w_thr w)[i := entry c]\<rparr>"
    by (auto split: if_splits)
  from inv have "list_all sound (w_thr w)" by (simp add: world_inv_def Let_def)
  then have "list_all sound ((w_thr w)[i := entry c])"
    using entry_nothing [of c] by (simp add: list_all_update)
  with inv show ?thesis
    unfolding w' world_inv_def Let_def
    using outside_call_nothing [OF out] entry_nothing [of c] i
    by (simp add: tally_update)
next
  case (Step i e)
  let ?b = "w_buf w" and ?thr = "w_thr w"
  from Step st obtain pc' b' where i: "i < length ?thr"
    and ts: "thread_step e (w_stop w) (?thr ! i) ?b = Some (pc', b')"
    and w': "w' = w\<lparr>w_buf := b', w_thr := ?thr[i := pc']\<rparr>"
    by (auto split: if_splits option.splits)
  from inv have qi: "queue_inv (b_q ?b)"
    and ci: "count (b_q ?b) = int (items (b_s ?b)) + tally pushed_unposted ?thr + tally item_held ?thr"
    and cs: "capacity (b_q ?b) - count (b_q ?b) =
        int (slots (b_s ?b)) + tally slot_held ?thr + tally popped_unposted ?thr"
    and lk: "tally in_lock ?thr = (if mtx (b_s ?b) then 1 else 0)"
    and ok: "list_all sound ?thr"
    by (simp_all add: world_inv_def Let_def)
  from ok i have oki: "sound (?thr ! i)" by (simp add: list_all_length)
  have room: "slot_held (?thr ! i) = 1 \<longrightarrow> count (b_q ?b) < capacity (b_q ?b)"
    using cs tally_member [of slot_held i ?thr, OF slot_held_nonneg i]
      tally_nonneg [of popped_unposted ?thr, OF popped_unposted_nonneg]
    by auto
  have some: "item_held (?thr ! i) = 1 \<longrightarrow> count (b_q ?b) \<noteq> 0"
    using ci tally_member [of item_held i ?thr, OF item_held_nonneg i]
      tally_nonneg [of pushed_unposted ?thr, OF pushed_unposted_nonneg]
    by auto
  have held: "in_lock (?thr ! i) = 1 \<longrightarrow> mtx (b_s ?b)"
    using lk tally_member [of in_lock i ?thr, OF in_lock_nonneg i]
    by (auto split: if_splits)
  from thread_step_delta [OF ts qi oki room some held]
  have d: "queue_inv (b_q b')" "sound pc'"
    "bal_items b' pc' = bal_items ?b (?thr ! i)"
    "bal_slots b' pc' = bal_slots ?b (?thr ! i)"
    "bal_lock b' pc' = bal_lock ?b (?thr ! i)"
    by simp_all
  have 1: "count (b_q b') =
      int (items (b_s b')) + tally pushed_unposted (?thr[i := pc']) + tally item_held (?thr[i := pc'])"
    using d(3) ci i by (simp add: tally_update bal_items_def)
  have 2: "capacity (b_q b') - count (b_q b') =
      int (slots (b_s b')) + tally slot_held (?thr[i := pc']) + tally popped_unposted (?thr[i := pc'])"
    using d(4) cs i by (simp add: tally_update bal_slots_def)
  have 3: "tally in_lock (?thr[i := pc']) = (if mtx (b_s b') then 1 else 0)"
    using d(5) lk i by (simp add: tally_update bal_lock_def split: if_splits)
  have 4: "list_all sound (?thr[i := pc'])"
    using ok d(2) by (simp add: list_all_update)
  show ?thesis
    unfolding w' world_inv_def Let_def using d(1) 1 2 3 4 by simp
qed

lemma world_inv_exec:
  "world_inv w \<Longrightarrow> exec as w = Some w' \<Longrightarrow> world_inv w'"
proof (induction as arbitrary: w)
  case Nil
  then show ?case by simp
next
  case (Cons a as)
  from Cons.prems(2) obtain w1 where s: "world_step a w = Some w1" and r: "exec as w1 = Some w'"
    by (auto split: option.splits)
  from world_inv_step [OF Cons.prems(1) s] r show ?case by (rule Cons.IH)
qed

lemma tally_replicate_Idle: "tally f (replicate n Idle) = int n * f Idle"
  by (induction n) (simp_all add: tally_def algebra_simps)

lemma world_inv_init:
  "buffer_inv b \<Longrightarrow> \<not> mtx (b_s b) \<Longrightarrow> world_inv (w_init b n)"
  by (simp add: world_inv_def w_init_def buffer_inv_def tally_replicate_Idle list_all_length)

lemma tally_zero:
  "list_all (\<lambda>pc. f pc = 0) thr \<Longrightarrow> tally f thr = 0"
  by (induction thr) (simp_all add: tally_def)

lemma buffer_init_idle:
  "buffer_init mem senv (Some bz) cap = (0, Some b0) \<Longrightarrow> \<not> mtx (b_s b0)"
  by (cases senv)
    (auto simp: buffer_init_def queue_init_def calloc_msgs_def sync_init_def q_ptr_def
      s_ptr_def Let_def split: if_splits option.splits prod.splits)

lemma two_threads_run:
  "exec two_threads (w_init (b_fresh 2) 2) =
     Some \<lparr>w_buf = b_one, w_stop = 1, w_thr = [Ret 0, Ret 1]\<rparr>"
  by (simp add: two_threads_def w_init_def e_ok_def e_late_def eval_defs demo_defs
      numeral_2_eq_2)

lemma reached_inv:
  assumes "buffer_init mem senv (Some bz) cap = (0, Some b0)"
    and "exec acts (w_init b0 n) = Some w"
  shows "world_inv w"
proof -
  from buffer_init_inv [OF assms(1)] have "buffer_inv b0" by simp
  then have "world_inv (w_init b0 n)"
    using buffer_init_idle [OF assms(1)] by (rule world_inv_init)
  then show ?thesis using assms(2) by (rule world_inv_exec)
qed

lemma init_demo:
  "buffer_init True (True, True, True) (Some b_blank) 2 = (0, Some (b_fresh 2))"
  by (simp add: buffer_init_def queue_init_def calloc_msgs_def sync_init_def q_ptr_def s_ptr_def
      Let_def demo_defs)

text \<open>
  C8. \<open>queue_init\<close> returns -1 for a null queue pointer or a capacity of 0 or less, -2
  when storage cannot be obtained, and otherwise 0, leaving the given capacity, a count of
  0 and \<open>next_seq\<close> 1. \<open>buffer_init\<close> returns -2 exactly when its \<open>queue_init\<close> fails,
  for either reason and before any synchronisation object is touched; that code differs
  from its other results: -1 for a null buffer, -3 when the queue was built and
  \<open>sync_init\<close> fails, 0 when both succeed.
\<close>

theorem construction_failures_surface:
  "queue_init mem None cap = (- 1, None) \<and>
   (cap \<le> 0 \<longrightarrow> queue_init mem (Some q) cap = (- 1, Some q)) \<and>
   (0 < cap \<longrightarrow> queue_init False (Some q) cap = (- 2, Some (q\<lparr>buf := None\<rparr>))) \<and>
   (0 < cap \<longrightarrow>
      (\<exists>q'. queue_init True (Some q) cap = (0, Some q') \<and> capacity q' = cap \<and>
            count q' = 0 \<and> next_seq q' = 1 \<and> held q' = [] \<and> queue_inv q')) \<and>
   buffer_init mem senv None cap = (- 1, None) \<and>
   ((fst (buffer_init mem senv (Some b) cap) = - 2) =
      (fst (queue_init mem (Some (b_q b)) cap) \<noteq> 0)) \<and>
   (fst (queue_init mem (Some (b_q b)) cap) \<noteq> 0 \<longrightarrow>
      (\<exists>bb. buffer_init mem senv (Some b) cap = (- 2, Some bb) \<and> b_s bb = b_s b)) \<and>
   ((fst (buffer_init mem senv (Some b) cap) = - 3) =
      (fst (queue_init mem (Some (b_q b)) cap) = 0 \<and>
       fst (sync_init senv (Some (b_s b)) cap) \<noteq> 0)) \<and>
   ((fst (buffer_init mem senv (Some b) cap) = 0) =
      (fst (queue_init mem (Some (b_q b)) cap) = 0 \<and>
       fst (sync_init senv (Some (b_s b)) cap) = 0))"
proof -
  have 1: "queue_init mem None cap = (- 1, None)" by (simp add: queue_init_def)
  have 2: "cap \<le> 0 \<longrightarrow> queue_init mem (Some q) cap = (- 1, Some q)"
    by (simp add: queue_init_def)
  have 3: "0 < cap \<longrightarrow> queue_init False (Some q) cap = (- 2, Some (q\<lparr>buf := None\<rparr>))"
    by (simp add: queue_init_def calloc_msgs_def)
  have 4: "0 < cap \<longrightarrow>
      (\<exists>q'. queue_init True (Some q) cap = (0, Some q') \<and> capacity q' = cap \<and>
            count q' = 0 \<and> next_seq q' = 1 \<and> held q' = [] \<and> queue_inv q')"
    by (simp add: queue_init_def calloc_msgs_def held_def queue_inv_def)
  have 5: "buffer_init mem senv None cap = (- 1, None)" by (simp add: buffer_init_def)
  have 6: "fst (queue_init mem (Some (b_q b)) cap) \<noteq> 0 \<longrightarrow>
      (\<exists>bb. buffer_init mem senv (Some b) cap = (- 2, Some bb) \<and> b_s bb = b_s b)"
    using buffer_init_queue_failure [of mem b cap senv] by blast
  obtain qrc q1 where qi: "queue_init mem (Some (b_q b)) cap = (qrc, q1)"
    by (cases "queue_init mem (Some (b_q b)) cap")
  then obtain qq where q1: "q1 = Some qq"
    by (auto simp: queue_init_def split: if_splits option.splits)
  obtain src s1 where si: "sync_init senv (Some (b_s b)) cap = (src, s1)"
    by (cases "sync_init senv (Some (b_s b)) cap")
  have val: "fst (buffer_init mem senv (Some b) cap) =
      (if qrc \<noteq> 0 then - 2 else if src \<noteq> 0 then - 3 else 0)"
    using qi q1 si by (simp add: buffer_init_def q_ptr_def s_ptr_def Let_def split: prod.splits)
  have 7: "(fst (buffer_init mem senv (Some b) cap) = - 2) =
      (fst (queue_init mem (Some (b_q b)) cap) \<noteq> 0)"
    using val qi by simp
  have 8: "(fst (buffer_init mem senv (Some b) cap) = - 3) =
      (fst (queue_init mem (Some (b_q b)) cap) = 0 \<and>
       fst (sync_init senv (Some (b_s b)) cap) \<noteq> 0)"
    using val qi si by simp
  have 9: "(fst (buffer_init mem senv (Some b) cap) = 0) =
      (fst (queue_init mem (Some (b_q b)) cap) = 0 \<and>
       fst (sync_init senv (Some (b_s b)) cap) = 0)"
    using val qi si by simp
  show ?thesis
    using 1 2 3 4 5 6 7 8 9 by blast
qed

theorem construction_failures_surface_witness:
  "(0::int) \<le> 0 \<and> queue_init True (Some q_blank) 0 = (- 1, Some q_blank) \<and>
   (0::int) < 2 \<and> queue_init False (Some q_blank) 2 = (- 2, Some (q_blank\<lparr>buf := None\<rparr>)) \<and>
   (\<exists>q'. queue_init True (Some q_blank) 2 = (0, Some q') \<and> capacity q' = 2 \<and>
         count q' = 0 \<and> next_seq q' = 1 \<and> held q' = [] \<and> queue_inv q') \<and>
   fst (queue_init False (Some (b_q b_blank)) 2) \<noteq> 0 \<and>
   (\<exists>bb. buffer_init False (True, True, True) (Some b_blank) 2 = (- 2, Some bb) \<and>
         b_s bb = b_s b_blank) \<and>
   fst (queue_init True (Some (b_q b_blank)) 2) = 0 \<and>
   fst (sync_init (True, False, True) (Some (b_s b_blank)) 2) \<noteq> 0 \<and>
   fst (buffer_init True (True, False, True) (Some b_blank) 2) = - 3"
proof -
  have a: "fst (queue_init False (Some (b_q b_blank)) 2) \<noteq> 0"
    by (simp add: queue_init_def calloc_msgs_def)
  have b: "fst (queue_init True (Some (b_q b_blank)) 2) = 0"
    by (simp add: queue_init_def calloc_msgs_def)
  have c: "fst (sync_init (True, False, True) (Some (b_s b_blank)) 2) \<noteq> 0"
    by (simp add: sync_init_def)
  note zero = construction_failures_surface
    [where mem = True and cap = 0 and q = q_blank and b = b_blank and senv = "(True, True, True)"]
  note nomem = construction_failures_surface
    [where mem = False and cap = 2 and q = q_blank and b = b_blank and senv = "(True, True, True)"]
  note nosem = construction_failures_surface
    [where mem = True and cap = 2 and q = q_blank and b = b_blank and senv = "(True, False, True)"]
  have 1: "queue_init True (Some q_blank) 0 = (- 1, Some q_blank)" using zero by simp
  have 2: "queue_init False (Some q_blank) 2 = (- 2, Some (q_blank\<lparr>buf := None\<rparr>))"
    using nomem by simp
  have 3: "\<exists>q'. queue_init True (Some q_blank) 2 = (0, Some q') \<and> capacity q' = 2 \<and>
         count q' = 0 \<and> next_seq q' = 1 \<and> held q' = [] \<and> queue_inv q'"
    using nomem by simp
  have 4: "\<exists>bb. buffer_init False (True, True, True) (Some b_blank) 2 = (- 2, Some bb) \<and>
         b_s bb = b_s b_blank"
    using nomem a by blast
  have 5: "fst (buffer_init True (True, False, True) (Some b_blank) 2) = - 3"
    using nosem b c by blast
  show ?thesis using 1 2 3 4 5 a b c by simp
qed

text \<open>
  C2. \<open>buffer_init\<close> leaves the coupling \<open>buffer_inv\<close>: the two counts add up to the
  capacity and the items count is the number of held messages.

  One call on its own: every call of \<open>buffer_put\<close>, \<open>buffer_get\<close> and their
  interruptible forms that starts in a buffer with the coupling and returns, with any
  code, ends in one with the coupling, and a call that does not return 0 leaves the buffer
  as it was. A \<open>buffer_put\<close> that returns 0 is, in this order, the wait that takes one
  slot token, the lock, the \<open>queue_push\<close> that returns 0, the unlock and the post of one
  item token: \<open>s2\<close> is the synchronisation state in which the push runs, with the slot
  already taken and the item not yet posted. \<open>buffer_get\<close> mirrors it with the two
  semaphores exchanged and \<open>queue_pop\<close>.

  Any number of threads, interleaved in any way from the initialised buffer: at every
  moment the held messages are the items count, plus the messages pushed and not yet
  announced, plus the item tokens taken whose message is not yet removed; the free room
  is the slots count, plus the slot tokens taken and not yet spent, plus the removals not
  yet announced. So a slot is taken before the push and the item is posted after it, and
  whenever every thread is outside a call the coupling holds.
\<close>

theorem coupling_kept_by_every_call:
  "(buffer_init mem senv (Some bz) cap = (0, Some b0) \<longrightarrow> buffer_inv b0) \<and>
   (buffer_inv b \<longrightarrow>
    (\<forall>rc b'. buffer_put env (Some b) (Some m) = Some (rc, b') \<longrightarrow>
        (\<exists>bb. b' = Some bb \<and> buffer_inv bb \<and> (rc \<noteq> 0 \<longrightarrow> bb = b) \<and>
           (rc = 0 \<longrightarrow>
              (\<exists>s1 s2 q3.
                 sync_wait_slots (wait_evs env) (Some (b_s b)) = Some (0, Some s1) \<and>
                 sync_lock (lock_err env) (Some s1) = Some (0, Some s2) \<and>
                 slots s2 = slots (b_s b) - 1 \<and> items s2 = items (b_s b) \<and> mtx s2 \<and>
                 queue_push (Some (b_q b)) (Some m) = (0, Some q3) \<and>
                 bb = \<lparr>b_q = q3, b_s = s2\<lparr>mtx := False, items := Suc (items s2)\<rparr>\<rparr>)))) \<and>
     (\<forall>rc b' out'. buffer_get env (Some b) (Some old) = Some (rc, b', out') \<longrightarrow>
        (\<exists>bb. b' = Some bb \<and> buffer_inv bb \<and> (rc \<noteq> 0 \<longrightarrow> bb = b \<and> out' = Some old) \<and>
           (rc = 0 \<longrightarrow>
              (\<exists>s1 s2 q3 x.
                 sync_wait_items (wait_evs env) (Some (b_s b)) = Some (0, Some s1) \<and>
                 sync_lock (lock_err env) (Some s1) = Some (0, Some s2) \<and>
                 items s2 = items (b_s b) - 1 \<and> slots s2 = slots (b_s b) \<and> mtx s2 \<and>
                 queue_pop (Some (b_q b)) (Some old) = (0, Some q3, Some x) \<and> out' = Some x \<and>
                 bb = \<lparr>b_q = q3, b_s = s2\<lparr>mtx := False, slots := Suc (slots s2)\<rparr>\<rparr>)))) \<and>
     (\<forall>rc b'. buffer_put_interruptible (Some b) (Some m) (Some rs) poll_ms = Some (rc, b') \<longrightarrow>
        (\<exists>bb. b' = Some bb \<and> buffer_inv bb \<and> (rc \<noteq> 0 \<longrightarrow> bb = b) \<and>
           (rc = 0 \<longrightarrow>
              0 < slots (b_s b) \<and>
              (\<exists>q3. queue_push (Some (b_q b)) (Some m) = (0, Some q3) \<and>
                 bb = b\<lparr>b_q := q3, b_s := (b_s b)\<lparr>slots := slots (b_s b) - 1,
                                                items := Suc (items (b_s b))\<rparr>\<rparr>)))) \<and>
     (\<forall>rc b' out'.
        buffer_get_interruptible (Some b) (Some old) (Some rs) poll_ms = Some (rc, b', out') \<longrightarrow>
        (\<exists>bb. b' = Some bb \<and> buffer_inv bb \<and> (rc \<noteq> 0 \<longrightarrow> bb = b \<and> out' = Some old) \<and>
           (rc = 0 \<longrightarrow>
              0 < items (b_s b) \<and>
              (\<exists>q3 x. queue_pop (Some (b_q b)) (Some old) = (0, Some q3, Some x) \<and>
                 out' = Some x \<and>
                 bb = b\<lparr>b_q := q3, b_s := (b_s b)\<lparr>items := items (b_s b) - 1,
                                                slots := Suc (slots (b_s b))\<rparr>\<rparr>))))) \<and>
   (buffer_init mem senv (Some bz) cap = (0, Some b0) \<and> exec acts (w_init b0 n) = Some w \<longrightarrow>
      count (b_q (w_buf w)) =
        int (items (b_s (w_buf w))) + tally pushed_unposted (w_thr w) + tally item_held (w_thr w) \<and>
      capacity (b_q (w_buf w)) - count (b_q (w_buf w)) =
        int (slots (b_s (w_buf w))) + tally slot_held (w_thr w) + tally popped_unposted (w_thr w) \<and>
      (list_all outside_call (w_thr w) \<longrightarrow> buffer_inv (w_buf w)))"
  (is "_ \<and> (_ \<longrightarrow> ?calls) \<and> (_ \<longrightarrow> ?threads)")
proof (intro conjI)
  show "buffer_init mem senv (Some bz) cap = (0, Some b0) \<longrightarrow> buffer_inv b0"
    by (simp add: buffer_init_inv)
next
  show "buffer_inv b \<longrightarrow> ?calls"
  proof
    assume inv: "buffer_inv b"
    show ?calls
    proof (intro conjI allI impI)
      fix rc b'
      assume run: "buffer_put env (Some b) (Some m) = Some (rc, b')"
      show "\<exists>bb. b' = Some bb \<and> buffer_inv bb \<and> (rc \<noteq> 0 \<longrightarrow> bb = b) \<and>
               (rc = 0 \<longrightarrow>
                  (\<exists>s1 s2 q3.
                     sync_wait_slots (wait_evs env) (Some (b_s b)) = Some (0, Some s1) \<and>
                     sync_lock (lock_err env) (Some s1) = Some (0, Some s2) \<and>
                     slots s2 = slots (b_s b) - 1 \<and> items s2 = items (b_s b) \<and> mtx s2 \<and>
                     queue_push (Some (b_q b)) (Some m) = (0, Some q3) \<and>
                     bb = \<lparr>b_q = q3, b_s = s2\<lparr>mtx := False, items := Suc (items s2)\<rparr>\<rparr>))"
      proof (cases "rc = 0")
        case False
        with buffer_put_cases [OF run] inv_put_done [OF inv] have "b' = Some b"
          by (auto split: if_splits)
        with False inv show ?thesis by simp
      next
        case True
        with buffer_put_cases [OF run] inv_put_done [OF inv] obtain bb where
          bb: "b' = Some bb" "buffer_inv bb" by (auto split: if_splits)
        from buffer_put_ok_chain [OF run [unfolded True]] bb True show ?thesis by simp
      qed
    next
      fix rc b' out'
      assume run: "buffer_get env (Some b) (Some old) = Some (rc, b', out')"
      show "\<exists>bb. b' = Some bb \<and> buffer_inv bb \<and> (rc \<noteq> 0 \<longrightarrow> bb = b \<and> out' = Some old) \<and>
               (rc = 0 \<longrightarrow>
                  (\<exists>s1 s2 q3 x.
                     sync_wait_items (wait_evs env) (Some (b_s b)) = Some (0, Some s1) \<and>
                     sync_lock (lock_err env) (Some s1) = Some (0, Some s2) \<and>
                     items s2 = items (b_s b) - 1 \<and> slots s2 = slots (b_s b) \<and> mtx s2 \<and>
                     queue_pop (Some (b_q b)) (Some old) = (0, Some q3, Some x) \<and> out' = Some x \<and>
                     bb = \<lparr>b_q = q3, b_s = s2\<lparr>mtx := False, slots := Suc (slots s2)\<rparr>\<rparr>))"
      proof (cases "rc = 0")
        case False
        with buffer_get_cases [OF run] inv_get_done [OF inv] have "b' = Some b \<and> out' = Some old"
          by (auto split: if_splits)
        with False inv show ?thesis by simp
      next
        case True
        with buffer_get_cases [OF run] inv_get_done [OF inv] obtain bb where
          bb: "b' = Some bb" "buffer_inv bb" by (auto split: if_splits)
        from buffer_get_ok_chain [OF run [unfolded True]] bb True show ?thesis by simp
      qed
    next
      fix rc b'
      assume "buffer_put_interruptible (Some b) (Some m) (Some rs) poll_ms = Some (rc, b')"
      then obtain bb where l: "put_loop rs poll_ms b m = Some (rc, bb)" and b': "b' = Some bb"
        by (auto simp: buffer_put_interruptible_def split: option.splits)
      show "\<exists>bb. b' = Some bb \<and> buffer_inv bb \<and> (rc \<noteq> 0 \<longrightarrow> bb = b) \<and>
               (rc = 0 \<longrightarrow>
                  0 < slots (b_s b) \<and>
                  (\<exists>q3. queue_push (Some (b_q b)) (Some m) = (0, Some q3) \<and>
                     bb = b\<lparr>b_q := q3, b_s := (b_s b)\<lparr>slots := slots (b_s b) - 1,
                                                    items := Suc (items (b_s b))\<rparr>\<rparr>))"
        using put_loop_cases [OF l] inv_put_done [OF inv] inv b'
        by (auto simp: put_done_def split: if_splits)
    next
      fix rc b' out'
      assume "buffer_get_interruptible (Some b) (Some old) (Some rs) poll_ms = Some (rc, b', out')"
      then obtain bb x where l: "get_loop rs poll_ms b old = Some (rc, bb, x)"
        and b': "b' = Some bb" "out' = Some x"
        by (auto simp: buffer_get_interruptible_def split: option.splits)
      show "\<exists>bb. b' = Some bb \<and> buffer_inv bb \<and> (rc \<noteq> 0 \<longrightarrow> bb = b \<and> out' = Some old) \<and>
               (rc = 0 \<longrightarrow>
                  0 < items (b_s b) \<and>
                  (\<exists>q3 x. queue_pop (Some (b_q b)) (Some old) = (0, Some q3, Some x) \<and>
                     out' = Some x \<and>
                     bb = b\<lparr>b_q := q3, b_s := (b_s b)\<lparr>items := items (b_s b) - 1,
                                                    slots := Suc (slots (b_s b))\<rparr>\<rparr>))"
        using get_loop_cases [OF l] inv_get_done [OF inv] inv b'
        by (auto simp: get_done_def split: if_splits)
    qed
  qed
next
  show "buffer_init mem senv (Some bz) cap = (0, Some b0) \<and> exec acts (w_init b0 n) = Some w \<longrightarrow>
      ?threads"
  proof
    assume "buffer_init mem senv (Some bz) cap = (0, Some b0) \<and> exec acts (w_init b0 n) = Some w"
    then have wi: "world_inv w" by (auto intro: reached_inv)
    let ?b = "w_buf w" and ?thr = "w_thr w"
    from wi have qi: "queue_inv (b_q ?b)"
      and ci: "count (b_q ?b) =
        int (items (b_s ?b)) + tally pushed_unposted ?thr + tally item_held ?thr"
      and cs: "capacity (b_q ?b) - count (b_q ?b) =
        int (slots (b_s ?b)) + tally slot_held ?thr + tally popped_unposted ?thr"
      by (simp_all add: world_inv_def Let_def)
    have rest: "buffer_inv ?b" if out: "list_all outside_call ?thr"
    proof -
      have z: "tally f ?thr = 0" if "\<And>pc. outside_call pc \<Longrightarrow> f pc = 0" for f
        using out that by (intro tally_zero) (auto simp: list_all_iff)
      have "tally pushed_unposted ?thr = 0" "tally item_held ?thr = 0"
        "tally slot_held ?thr = 0" "tally popped_unposted ?thr = 0"
        by (rule z, simp add: outside_call_nothing)+
      with qi ci cs show ?thesis by (simp add: buffer_inv_def)
    qed
    show ?threads using ci cs rest by simp
  qed
qed

theorem coupling_kept_by_every_call_witness:
  "buffer_init True (True, True, True) (Some b_blank) 2 = (0, Some (b_fresh 2)) \<and>
   buffer_inv (b_fresh 2) \<and>
   buffer_put env_ok (Some (b_fresh 2)) (Some (pri_msg 5)) = Some (0, Some b_one) \<and>
   buffer_inv b_one \<and>
   buffer_get env_ok (Some b_one) (Some zero_msg) =
     Some (0, Some b_drained, Some ((pri_msg 5)\<lparr>seq := 1\<rparr>)) \<and>
   buffer_inv b_drained \<and>
   buffer_put_interruptible (Some (b_fresh 2)) (Some (pri_msg 5)) (Some [r_timeout, r_go]) 150 =
     Some (0, Some b_one) \<and>
   buffer_get_interruptible (Some b_one) (Some zero_msg) (Some [r_timeout, r_go]) 150 =
     Some (0, Some b_drained, Some ((pri_msg 5)\<lparr>seq := 1\<rparr>)) \<and>
   exec two_threads (w_init (b_fresh 2) 2) =
     Some \<lparr>w_buf = b_one, w_stop = 1, w_thr = [Ret 0, Ret 1]\<rparr> \<and>
   list_all outside_call [Ret 0, Ret 1]"
proof -
  have fresh: "buffer_inv (b_fresh 2)"
    by (rule coupling_kept_by_every_call [THEN conjunct1, THEN mp, OF init_demo])
  note calls = coupling_kept_by_every_call [THEN conjunct2, THEN conjunct1, THEN mp]
  from calls [OF fresh, THEN conjunct1, THEN spec, THEN spec, THEN mp, OF put_demo]
  have one: "buffer_inv b_one" by auto
  from calls [OF one, THEN conjunct2, THEN conjunct1, THEN spec, THEN spec, THEN spec, THEN mp,
      OF get_demo]
  have drained: "buffer_inv b_drained" by auto
  have out: "list_all outside_call [Ret 0, Ret 1]" by simp
  from coupling_kept_by_every_call [THEN conjunct2, THEN conjunct2, THEN mp,
      OF conjI [OF init_demo two_threads_run]] out
  have "buffer_inv b_one" by simp
  then show ?thesis
    using init_demo fresh put_demo one get_demo drained put_i_demo get_i_demo two_threads_run
    by simp
qed

text \<open>
  C3. An interruptible put or get that returns 1, the stopped outcome, returns the whole
  buffer as it was at the call: the queue, both counts and the mutex; a get also leaves
  its output as it was. The three ways to return 1 are the flag read as set at the loop
  test, right after the token was taken, and after the lock was taken; in the last two
  the token taken is posted back, and the lock released, before the return.
\<close>

theorem stopped_leaves_buffer_unchanged:
  "(buffer_put_interruptible (Some b) (Some m) (Some rs) poll_ms = Some (1, b') \<longrightarrow>
      b' = Some b) \<and>
   (buffer_get_interruptible (Some b) (Some old) (Some rs) poll_ms = Some (1, b'', out') \<longrightarrow>
      b'' = Some b \<and> out' = Some old)"
proof (rule conjI; rule impI)
  assume "buffer_put_interruptible (Some b) (Some m) (Some rs) poll_ms = Some (1, b')"
  then obtain bb where l: "put_loop rs poll_ms b m = Some (1, bb)" and b': "b' = Some bb"
    by (auto simp: buffer_put_interruptible_def split: option.splits)
  from put_loop_cases [OF l] have "bb = b" by (auto split: if_splits)
  with b' show "b' = Some b" by simp
next
  assume "buffer_get_interruptible (Some b) (Some old) (Some rs) poll_ms = Some (1, b'', out')"
  then obtain bb x where l: "get_loop rs poll_ms b old = Some (1, bb, x)"
    and b': "b'' = Some bb" "out' = Some x"
    by (auto simp: buffer_get_interruptible_def split: option.splits)
  from get_loop_cases [OF l] have "bb = b \<and> x = old" by (auto split: if_splits)
  with b' show "b'' = Some b \<and> out' = Some old" by simp
qed

theorem stopped_leaves_buffer_unchanged_witness:
  "buffer_put_interruptible (Some b_one) (Some (pri_msg 9)) (Some [r_timeout, r_entry]) 150 =
     Some (1, Some b_one) \<and>
   buffer_put_interruptible (Some b_one) (Some (pri_msg 9)) (Some [r_token]) 150 =
     Some (1, Some b_one) \<and>
   buffer_put_interruptible (Some b_one) (Some (pri_msg 9)) (Some [r_lock]) 150 =
     Some (1, Some b_one) \<and>
   buffer_get_interruptible (Some b_one) (Some zero_msg) (Some [r_timeout, r_entry]) 150 =
     Some (1, Some b_one, Some zero_msg) \<and>
   buffer_get_interruptible (Some b_one) (Some zero_msg) (Some [r_token]) 150 =
     Some (1, Some b_one, Some zero_msg) \<and>
   buffer_get_interruptible (Some b_one) (Some zero_msg) (Some [r_lock]) 150 =
     Some (1, Some b_one, Some zero_msg)"
proof -
  have p: "\<exists>x. buffer_put_interruptible (Some b_one) (Some (pri_msg 9)) (Some rs) 150 = Some (1, x)"
    if "rs \<in> {[r_timeout, r_entry], [r_token], [r_lock]}" for rs
    using that put_stopped_demo by auto
  have g: "\<exists>x y. buffer_get_interruptible (Some b_one) (Some zero_msg) (Some rs) 150 = Some (1, x, y)"
    if "rs \<in> {[r_timeout, r_entry], [r_token], [r_lock]}" for rs
    using that get_stopped_demo by auto
  have put: "buffer_put_interruptible (Some b_one) (Some (pri_msg 9)) (Some rs) 150 =
      Some (1, Some b_one)" if rs: "rs \<in> {[r_timeout, r_entry], [r_token], [r_lock]}" for rs
  proof -
    from p [OF rs] obtain x where
      x: "buffer_put_interruptible (Some b_one) (Some (pri_msg 9)) (Some rs) 150 = Some (1, x)"
      by blast
    with stopped_leaves_buffer_unchanged
      [where b = b_one and m = "pri_msg 9" and rs = rs and poll_ms = 150 and b' = x] show ?thesis by simp
  qed
  have get: "buffer_get_interruptible (Some b_one) (Some zero_msg) (Some rs) 150 =
      Some (1, Some b_one, Some zero_msg)"
    if rs: "rs \<in> {[r_timeout, r_entry], [r_token], [r_lock]}" for rs
  proof -
    from g [OF rs] obtain x y where
      x: "buffer_get_interruptible (Some b_one) (Some zero_msg) (Some rs) 150 = Some (1, x, y)"
      by blast
    with stopped_leaves_buffer_unchanged
      [where b = b_one and old = zero_msg and rs = rs and poll_ms = 150 and b'' = x and out' = y]
    show ?thesis by simp
  qed
  show ?thesis using put get by simp
qed

text \<open>
  C7. In a buffer with the coupling, a free slot means the queue is not full and an
  available item means it is not empty, and no call of \<open>buffer_put\<close>, \<open>buffer_get\<close>
  or their interruptible forms returns -4. With any number of threads interleaved in any
  way from the initialised buffer, no thread is ever on the branch taken when
  \<open>queue_push\<close> or \<open>queue_pop\<close> fails after the token was acquired (\<open>sound\<close> excludes
  a failed push or pop, the rollback with code -4 and the return of -4).
\<close>

theorem internal_inconsistency_unreachable:
  "(buffer_inv b \<longrightarrow>
      (0 < slots (b_s b) \<longrightarrow> \<not> queue_is_full (Some (b_q b))) \<and>
      (0 < items (b_s b) \<longrightarrow> \<not> queue_is_empty (Some (b_q b))) \<and>
      map_option fst (buffer_put env (Some b) (Some m)) \<noteq> Some (- 4) \<and>
      map_option fst (buffer_get env (Some b) (Some old)) \<noteq> Some (- 4) \<and>
      map_option fst (buffer_put_interruptible (Some b) (Some m) (Some rs) poll_ms) \<noteq> Some (- 4) \<and>
      map_option fst (buffer_get_interruptible (Some b) (Some old) (Some rs) poll_ms) \<noteq> Some (- 4)) \<and>
   (buffer_init mem senv (Some bz) cap = (0, Some b0) \<and> exec acts (w_init b0 n) = Some w \<longrightarrow>
      list_all sound (w_thr w) \<and> Ret (- 4) \<notin> set (w_thr w) \<and>
      Put_undo (- 4) \<notin> set (w_thr w) \<and> Get_undo (- 4) \<notin> set (w_thr w))"
  (is "(_ \<longrightarrow> ?calls) \<and> (_ \<longrightarrow> ?threads)")
proof (rule conjI; rule impI)
  assume inv: "buffer_inv b"
  show ?calls
  proof (intro conjI)
    show "0 < slots (b_s b) \<longrightarrow> \<not> queue_is_full (Some (b_q b))"
      using inv by (auto simp: buffer_inv_def queue_is_full_def)
    show "0 < items (b_s b) \<longrightarrow> \<not> queue_is_empty (Some (b_q b))"
      using inv by (auto simp: buffer_inv_def queue_is_empty_def)
    show "map_option fst (buffer_put env (Some b) (Some m)) \<noteq> Some (- 4)"
    proof
      assume "map_option fst (buffer_put env (Some b) (Some m)) = Some (- 4)"
      then obtain b' where "buffer_put env (Some b) (Some m) = Some (- 4, b')" by auto
      from buffer_put_cases [OF this] inv_put_done [OF inv] show False
        by (auto split: if_splits)
    qed
    show "map_option fst (buffer_get env (Some b) (Some old)) \<noteq> Some (- 4)"
    proof
      assume "map_option fst (buffer_get env (Some b) (Some old)) = Some (- 4)"
      then obtain b' x where "buffer_get env (Some b) (Some old) = Some (- 4, b', x)" by auto
      from buffer_get_cases [OF this] inv_get_done [OF inv] show False
        by (auto split: if_splits)
    qed
    show "map_option fst (buffer_put_interruptible (Some b) (Some m) (Some rs) poll_ms) \<noteq> Some (- 4)"
    proof
      assume "map_option fst (buffer_put_interruptible (Some b) (Some m) (Some rs) poll_ms) = Some (- 4)"
      then obtain b' where "put_loop rs poll_ms b m = Some (- 4, b')"
        by (auto simp: buffer_put_interruptible_def split: option.splits)
      from put_loop_cases [OF this] inv_put_done [OF inv] show False
        by (auto split: if_splits)
    qed
    show "map_option fst (buffer_get_interruptible (Some b) (Some old) (Some rs) poll_ms) \<noteq> Some (- 4)"
    proof
      assume "map_option fst (buffer_get_interruptible (Some b) (Some old) (Some rs) poll_ms) = Some (- 4)"
      then obtain b' x where "get_loop rs poll_ms b old = Some (- 4, b', x)"
        by (auto simp: buffer_get_interruptible_def split: option.splits)
      from get_loop_cases [OF this] inv_get_done [OF inv] show False
        by (auto split: if_splits)
    qed
  qed
next
  assume "buffer_init mem senv (Some bz) cap = (0, Some b0) \<and> exec acts (w_init b0 n) = Some w"
  then have "world_inv w" by (auto intro: reached_inv)
  then have ok: "list_all sound (w_thr w)" by (simp add: world_inv_def Let_def)
  then have "Ret (- 4) \<notin> set (w_thr w)" "Put_undo (- 4) \<notin> set (w_thr w)"
    "Get_undo (- 4) \<notin> set (w_thr w)"
    by (auto simp: list_all_iff)
  with ok show ?threads by simp
qed

theorem internal_inconsistency_unreachable_witness:
  "buffer_inv b_one \<and> 0 < slots (b_s b_one) \<and> \<not> queue_is_full (Some (b_q b_one)) \<and>
   0 < items (b_s b_one) \<and> \<not> queue_is_empty (Some (b_q b_one)) \<and>
   map_option fst (buffer_put env_ok (Some b_one) (Some (pri_msg 9))) \<noteq> Some (- 4) \<and>
   map_option fst (buffer_get env_ok (Some b_one) (Some zero_msg)) \<noteq> Some (- 4) \<and>
   map_option fst (buffer_put_interruptible (Some b_one) (Some (pri_msg 9)) (Some [r_go]) 150)
     \<noteq> Some (- 4) \<and>
   map_option fst (buffer_get_interruptible (Some b_one) (Some zero_msg) (Some [r_go]) 150)
     \<noteq> Some (- 4) \<and>
   buffer_init True (True, True, True) (Some b_blank) 2 = (0, Some (b_fresh 2)) \<and>
   exec two_threads (w_init (b_fresh 2) 2) =
     Some \<lparr>w_buf = b_one, w_stop = 1, w_thr = [Ret 0, Ret 1]\<rparr> \<and>
   list_all sound [Ret 0, Ret 1] \<and> Ret (- 4) \<notin> set [Ret 0, Ret 1]"
proof -
  have pos: "0 < slots (b_s b_one)" "0 < items (b_s b_one)" by (simp_all add: b_one_def)
  note calls = internal_inconsistency_unreachable
    [where b = b_one and env = env_ok and m = "pri_msg 9" and old = zero_msg and rs = "[r_go]"
      and poll_ms = 150, THEN conjunct1, THEN mp, OF buffer_inv_b_one]
  note threads = internal_inconsistency_unreachable
    [THEN conjunct2, THEN mp, OF conjI [OF init_demo two_threads_run]]
  show ?thesis
    using calls threads pos buffer_inv_b_one init_demo two_threads_run by simp
qed

end
